theory Spec2Isabelle
  imports Main "HOL-Library.Word" "HOL-Library.Sublist"
begin

unbundle bit_operations_syntax

section \<open>Configuration and provider selection\<close>

text \<open>
  The Go struct \<^verbatim>\<open>Config\<close> (config.go). A \<^verbatim>\<open>*Config\<close> may be nil, so functions
  that receive the pointer take a \<open>Config option\<close>.
\<close>

record Config =
  GoogleAPIKey :: string
  ProjectID :: string
  Location :: string
  ReveniumAPIKey :: string
  ReveniumBaseURL :: string
  VertexDisabled :: bool
  Debug :: bool
  CapturePrompts :: bool

text \<open>\<^verbatim>\<open>type Provider string\<close> with its two constants.\<close>

type_synonym Provider = string

definition ProviderGoogleAI :: Provider where
  "ProviderGoogleAI = ''GOOGLE_AI''"

definition ProviderVertexAI :: Provider where
  "ProviderVertexAI = ''VERTEX_AI''"

definition DetectProvider :: "Config option \<Rightarrow> Provider" where
  "DetectProvider cfg =
     (case cfg of
        None \<Rightarrow> ProviderGoogleAI
      | Some c \<Rightarrow>
          if VertexDisabled c then ProviderGoogleAI
          else if ProjectID c \<noteq> '''' then ProviderVertexAI
          else ProviderGoogleAI)"

section \<open>Go strings\<close>

text \<open>
  A Go \<^verbatim>\<open>string\<close> is a sequence of bytes: \<^verbatim>\<open>len\<close> counts bytes and \<^verbatim>\<open>s[i]\<close>
  reads one. It is modelled as \<open>string\<close>, whose characters are bytes; \<open>byte c\<close> is
  the numeric value of a byte.
\<close>

definition byte :: "char \<Rightarrow> nat" where
  "byte c = of_char c"

definition isASCII :: "string \<Rightarrow> bool" where
  "isASCII s = list_all (\<lambda>c. byte c < 128) s"

definition upperASCII :: "char \<Rightarrow> char" where
  "upperASCII c = (if 97 \<le> byte c \<and> byte c \<le> 122 then char_of (byte c - 32) else c)"

definition lowerASCII :: "char \<Rightarrow> char" where
  "lowerASCII c = (if 65 \<le> byte c \<and> byte c \<le> 90 then char_of (byte c + 32) else c)"

section \<open>UTF-8 in Go's standard library\<close>

text \<open>
  \<^verbatim>\<open>truncateUTF8Safe\<close> calls \<^verbatim>\<open>utf8.ValidString\<close>, \<^verbatim>\<open>utf8.RuneLen\<close> and the
  conversions \<^verbatim>\<open>[]rune(s)\<close> and \<^verbatim>\<open>string(r)\<close>; \<^verbatim>\<open>strings.ToUpper\<close> and
  \<^verbatim>\<open>json.Marshal\<close> decode their input rune by rune. These functions belong to Go,
  not to this repository; they are written out here as Go defines them. A well-formed UTF-8
  sequence is a lead byte followed by one to three more bytes, or a single ASCII
  byte: the lead byte fixes the length, the second byte must lie in a range that
  depends on the lead byte (this excludes over-long encodings, surrogates and code
  points above U+10FFFF), and the remaining bytes are continuation bytes
  \<^verbatim>\<open>10xxxxxx\<close>.
\<close>

definition leadLen :: "nat \<Rightarrow> nat" where
  "leadLen x =
     (if x < 0x80 then 1
      else if 0xC2 \<le> x \<and> x \<le> 0xDF then 2
      else if 0xE0 \<le> x \<and> x \<le> 0xEF then 3
      else if 0xF0 \<le> x \<and> x \<le> 0xF4 then 4
      else 0)"

definition secondOK :: "nat \<Rightarrow> nat \<Rightarrow> bool" where
  "secondOK x y =
     (if x = 0xE0 then 0xA0 \<le> y \<and> y \<le> 0xBF
      else if x = 0xED then 0x80 \<le> y \<and> y \<le> 0x9F
      else if x = 0xF0 then 0x90 \<le> y \<and> y \<le> 0xBF
      else if x = 0xF4 then 0x80 \<le> y \<and> y \<le> 0x8F
      else 0x80 \<le> y \<and> y \<le> 0xBF)"

definition isCont :: "char \<Rightarrow> bool" where
  "isCont c = (0x80 \<le> byte c \<and> byte c \<le> 0xBF)"

definition tailOK :: "char \<Rightarrow> string \<Rightarrow> bool" where
  "tailOK b0 following =
     (case following of
        [] \<Rightarrow> True
      | b1 # others \<Rightarrow> secondOK (byte b0) (byte b1) \<and> list_all isCont others)"

text \<open>
  The length of the well-formed sequence at the head of a string, 0 if there is
  none (the case in which Go decodes \<^verbatim>\<open>RuneError\<close> and moves on by one byte).
\<close>

fun seqLen :: "string \<Rightarrow> nat" where
  "seqLen [] = 0"
| "seqLen (b0 # rest) =
     (let n = leadLen (byte b0)
      in if 0 < n \<and> n - 1 \<le> length rest \<and> tailOK b0 (take (n - 1) rest) then n else 0)"

function ValidString :: "string \<Rightarrow> bool" where
  "ValidString s = (if s = [] then True
                    else if seqLen s = 0 then False
                    else ValidString (drop (seqLen s) s))"
  by pat_completeness auto
termination
  by (relation "measure length") auto

declare ValidString.simps [simp del]

definition RuneError :: nat where
  "RuneError = 0xFFFD"

text \<open>The code point of a well-formed sequence.\<close>

fun runeValue :: "string \<Rightarrow> nat" where
  "runeValue [b0] = byte b0"
| "runeValue [b0, b1] = (byte b0 mod 32) * 64 + byte b1 mod 64"
| "runeValue [b0, b1, b2] = (byte b0 mod 16) * 4096 + (byte b1 mod 64) * 64 + byte b2 mod 64"
| "runeValue [b0, b1, b2, b3] =
     (byte b0 mod 8) * 262144 + (byte b1 mod 64) * 4096 + (byte b2 mod 64) * 64 + byte b3 mod 64"
| "runeValue s = RuneError"

text \<open>\<^verbatim>\<open>utf8.DecodeRuneInString\<close>: the rune at the head of a string and its width.\<close>

definition DecodeRuneInString :: "string \<Rightarrow> nat \<times> nat" where
  "DecodeRuneInString s =
     (if s = [] then (RuneError, 0)
      else if seqLen s = 0 then (RuneError, 1)
      else (runeValue (take (seqLen s) s), seqLen s))"

text \<open>\<^verbatim>\<open>[]rune(s)\<close>.\<close>

function runes :: "string \<Rightarrow> nat list" where
  "runes s = (if s = [] then []
              else fst (DecodeRuneInString s) # runes (drop (snd (DecodeRuneInString s)) s))"
  by pat_completeness auto
termination
  by (relation "measure length") (auto simp: DecodeRuneInString_def)

declare runes.simps [simp del]

definition validRune :: "nat \<Rightarrow> bool" where
  "validRune r = (r < 0xD800 \<or> (0xDFFF < r \<and> r \<le> 0x10FFFF))"

text \<open>\<^verbatim>\<open>utf8.RuneLen\<close>: the width of a rune's encoding, -1 for an invalid rune.\<close>

definition RuneLen :: "nat \<Rightarrow> int" where
  "RuneLen r =
     (if r < 0x80 then 1
      else if r < 0x800 then 2
      else if 0xD800 \<le> r \<and> r \<le> 0xDFFF then - 1
      else if r < 0x10000 then 3
      else if r \<le> 0x10FFFF then 4
      else - 1)"

text \<open>\<^verbatim>\<open>string(r)\<close>: the UTF-8 encoding of a rune, that of U+FFFD for an invalid rune.\<close>

definition encodeRune :: "nat \<Rightarrow> string" where
  "encodeRune r =
     (if r < 0x80 then [char_of r]
      else if r < 0x800 then [char_of (0xC0 + r div 64), char_of (0x80 + r mod 64)]
      else if \<not> validRune r then [char_of (0xEF::nat), char_of (0xBF::nat), char_of (0xBD::nat)]
      else if r < 0x10000
      then [char_of (0xE0 + r div 4096), char_of (0x80 + (r div 64) mod 64),
            char_of (0x80 + r mod 64)]
      else [char_of (0xF0 + r div 262144), char_of (0x80 + (r div 4096) mod 64),
            char_of (0x80 + (r div 64) mod 64), char_of (0x80 + r mod 64)])"

section \<open>Case conversion in Go's standard library\<close>

text \<open>
  \<^verbatim>\<open>unicode.ToUpper\<close> converts an ASCII rune itself and looks any other rune up
  in the case tables of the Go runtime (\<^verbatim>\<open>unicode.CaseRanges\<close>). Two entries of these
  tables give a non-ASCII rune an ASCII capital and are written out: U+0131, the
  dotless i, has the capital \<^verbatim>\<open>I\<close>, and U+017F, the long s, has the capital \<^verbatim>\<open>S\<close>. The
  rest of the tables is the parameter \<open>T\<close>; \<open>upperCaseTable T\<close> says of it what the
  proofs below use: it sends every other non-ASCII rune to a non-ASCII rune.
\<close>

definition unicodeToUpper :: "(nat \<Rightarrow> nat) \<Rightarrow> nat \<Rightarrow> nat" where
  "unicodeToUpper T r =
     (if r \<le> 0x7F then (if 0x61 \<le> r \<and> r \<le> 0x7A then r - 0x20 else r)
      else if r = 0x131 then 0x49
      else if r = 0x17F then 0x53
      else T r)"

definition upperCaseTable :: "(nat \<Rightarrow> nat) \<Rightarrow> bool" where
  "upperCaseTable T = (\<forall>r. 0x80 \<le> r \<and> r \<noteq> 0x131 \<and> r \<noteq> 0x17F \<longrightarrow> 0x80 \<le> T r)"

text \<open>
  \<^verbatim>\<open>strings.ToUpper\<close> converts a string of ASCII bytes byte by byte. Any other
  string goes through \<^verbatim>\<open>strings.Map(unicode.ToUpper, s)\<close>: the string is decoded
  rune by rune (a byte that starts no well-formed sequence is read as U+FFFD), and
  the result is the concatenation of the encodings of the converted runes.
  \<^verbatim>\<open>strings.ToLower\<close> has the same shape; the code uses it once, on a MIME type, and its
  Unicode branch is the parameter \<open>L\<close>.
\<close>

definition ToUpper :: "(nat \<Rightarrow> nat) \<Rightarrow> string \<Rightarrow> string" where
  "ToUpper T s =
     (if isASCII s then map upperASCII s
      else concat (map (\<lambda>r. encodeRune (unicodeToUpper T r)) (runes s)))"

definition ToLower :: "(string \<Rightarrow> string) \<Rightarrow> string \<Rightarrow> string" where
  "ToLower L s = (if isASCII s then map lowerASCII s else L s)"

text \<open>\<^verbatim>\<open>strings.HasPrefix\<close> and \<^verbatim>\<open>strings.HasSuffix\<close>.\<close>

definition HasPrefix :: "string \<Rightarrow> string \<Rightarrow> bool" where
  "HasPrefix s p = (length p \<le> length s \<and> take (length p) s = p)"

definition HasSuffix :: "string \<Rightarrow> string \<Rightarrow> bool" where
  "HasSuffix s p = (length p \<le> length s \<and> drop (length s - length p) s = p)"

text \<open>
  Case-insensitive equality as the specification uses the word, on ASCII letters:
  two strings are equal once every upper-case ASCII letter is replaced by its
  lower-case letter. (The code normalises to upper case instead.)
\<close>

definition spec_fold :: "string \<Rightarrow> string" where
  "spec_fold s = map lowerASCII s"

definition spec_equal_ignoring_case :: "string \<Rightarrow> string \<Rightarrow> bool" where
  "spec_equal_ignoring_case s t = (spec_fold s = spec_fold t)"

section \<open>Stop reasons\<close>

text \<open>
  \<^verbatim>\<open>ReveniumStopReason\<close> (stop\_reason\_mapper.go) is declared as
  \<^verbatim>\<open>type ReveniumStopReason string\<close> with eight constants. It is a string type: a
  caller may pass any string as a stop reason. A finish reason
  (\<^verbatim>\<open>genai.FinishReason\<close>) is a string as well.
\<close>

type_synonym ReveniumStopReason = string

definition StopReasonEnd :: ReveniumStopReason where
  "StopReasonEnd = ''END''"

definition StopReasonEndSequence :: ReveniumStopReason where
  "StopReasonEndSequence = ''END_SEQUENCE''"

definition StopReasonTimeout :: ReveniumStopReason where
  "StopReasonTimeout = ''TIMEOUT''"

definition StopReasonTokenLimit :: ReveniumStopReason where
  "StopReasonTokenLimit = ''TOKEN_LIMIT''"

definition StopReasonCostLimit :: ReveniumStopReason where
  "StopReasonCostLimit = ''COST_LIMIT''"

definition StopReasonCompletionLimit :: ReveniumStopReason where
  "StopReasonCompletionLimit = ''COMPLETION_LIMIT''"

definition StopReasonError :: ReveniumStopReason where
  "StopReasonError = ''ERROR''"

definition StopReasonCancelled :: ReveniumStopReason where
  "StopReasonCancelled = ''CANCELLED''"

text \<open>
  The \<^verbatim>\<open>switch\<close> of \<^verbatim>\<open>MapGoogleFinishReason\<close>, case by case in the source's order.
  The warning logged in the \<^verbatim>\<open>default\<close> case does not change the result.
\<close>

definition MapGoogleFinishReason ::
  "(nat \<Rightarrow> nat) \<Rightarrow> string \<Rightarrow> ReveniumStopReason \<Rightarrow> ReveniumStopReason" where
  "MapGoogleFinishReason T finishReason defaultReason =
     (if finishReason = '''' then defaultReason
      else
        let normalizedReason = ToUpper T finishReason in
        if normalizedReason = ''STOP'' then StopReasonEnd
        else if normalizedReason = ''MAX_TOKENS'' then StopReasonTokenLimit
        else if normalizedReason \<in> set [''SAFETY'', ''RECITATION'', ''BLOCKLIST'',
                  ''PROHIBITED_CONTENT'', ''SPII'', ''MODEL_ARMOR'', ''IMAGE_SAFETY'',
                  ''IMAGE_PROHIBITED_CONTENT'', ''IMAGE_RECITATION'']
          then StopReasonError
        else if normalizedReason \<in> set [''MALFORMED_FUNCTION_CALL'', ''UNEXPECTED_TOOL_CALL'',
                  ''NO_IMAGE'']
          then StopReasonError
        else if normalizedReason \<in> set [''CANCELLED'', ''CANCELED''] then StopReasonCancelled
        else if normalizedReason \<in> set [''FINISH_REASON_UNSPECIFIED'', ''OTHER'', ''IMAGE_OTHER'']
          then defaultReason
        else defaultReason)"

text \<open>
  The words of the specification. The closed set of standardized values is the list
  of the eight constants. A finish reason is an entry of the mapping table
  ``case-insensitively'' when, read rune by rune, it is that entry with each letter in
  upper or lower case; the lower-case letters include the long s (U+017F) for
  \<^verbatim>\<open>S\<close> and the dotless i (U+0131) for \<^verbatim>\<open>I\<close>, the two non-ASCII letters whose capital is
  an ASCII letter.
\<close>

definition spec_standard_values :: "ReveniumStopReason list" where
  "spec_standard_values =
     [StopReasonEnd, StopReasonEndSequence, StopReasonTimeout, StopReasonTokenLimit,
      StopReasonCostLimit, StopReasonCompletionLimit, StopReasonError, StopReasonCancelled]"

definition spec_same_letter :: "nat \<Rightarrow> char \<Rightarrow> bool" where
  "spec_same_letter r c =
     (r = byte c \<or> r = byte (lowerASCII c)
      \<or> (r = 0x17F \<and> c = CHR ''S'') \<or> (r = 0x131 \<and> c = CHR ''I''))"

definition spec_is_entry :: "string \<Rightarrow> string \<Rightarrow> bool" where
  "spec_is_entry finishReason entry = list_all2 spec_same_letter (runes finishReason) entry"

definition spec_error_entries :: "string list" where
  "spec_error_entries =
     [''SAFETY'', ''RECITATION'', ''BLOCKLIST'', ''PROHIBITED_CONTENT'', ''SPII'',
      ''MODEL_ARMOR'', ''IMAGE_SAFETY'', ''IMAGE_PROHIBITED_CONTENT'', ''IMAGE_RECITATION'',
      ''MALFORMED_FUNCTION_CALL'', ''UNEXPECTED_TOOL_CALL'', ''NO_IMAGE'']"

definition spec_cancel_entries :: "string list" where
  "spec_cancel_entries = [''CANCELLED'', ''CANCELED'']"

definition spec_unspecified_entries :: "string list" where
  "spec_unspecified_entries = [''FINISH_REASON_UNSPECIFIED'', ''OTHER'', ''IMAGE_OTHER'']"

definition spec_entries :: "string list" where
  "spec_entries =
     ''STOP'' # ''MAX_TOKENS'' # spec_error_entries @ spec_cancel_entries
       @ spec_unspecified_entries"

text \<open>For the examples: case tables that leave every rune they are asked about unchanged.\<close>

definition upper_table_example :: "nat \<Rightarrow> nat" where
  "upper_table_example r = r"

section \<open>The SDK types the middleware reads\<close>

text \<open>
  The fields of the \<^verbatim>\<open>genai\<close> structs that the middleware reads. A pointer that may
  be nil is an \<open>option\<close>; a nil slice is the empty list (the code only ranges over
  these slices and takes their length, which does not tell the two apart). The
  token counts are \<^verbatim>\<open>int32\<close>.
\<close>

record Blob =
  blob_MIMEType :: string
  blob_Data :: "string option"

record FileData =
  file_MIMEType :: string
  file_FileURI :: string

record Part =
  Text :: string
  InlineData :: "Blob option"
  FileData :: "FileData option"

record Content =
  Role :: string
  Parts :: "Part option list"

record Candidate =
  FinishReason :: string
  cand_Content :: "Content option"

record GenerateContentResponseUsageMetadata =
  PromptTokenCount :: "32 word"
  CandidatesTokenCount :: "32 word"
  TotalTokenCount :: "32 word"
  CachedContentTokenCount :: "32 word"
  ThoughtsTokenCount :: "32 word"

record GenerateContentResponse =
  Candidates :: "Candidate option list"
  UsageMetadata :: "GenerateContentResponseUsageMetadata option"

text \<open>A \<^verbatim>\<open>float32\<close> is only copied, never computed with: it is its bit pattern.\<close>

type_synonym float32 = "32 word"

record GenerateContentConfig =
  SystemInstruction :: "Content option"
  Temperature :: "float32 option"

definition ExtractFinishReason :: "GenerateContentResponse option \<Rightarrow> string" where
  "ExtractFinishReason response =
     (case response of
        None \<Rightarrow> ''''
      | Some r \<Rightarrow>
          (case Candidates r of
             [] \<Rightarrow> ''''
           | c0 # _ \<Rightarrow> (case c0 of None \<Rightarrow> '''' | Some c \<Rightarrow> FinishReason c)))"

section \<open>Vision detection\<close>

record VisionDetectionResult =
  HasVisionContent :: bool
  ImageCount :: nat
  TotalImageSizeBytes :: nat
  MediaTypes :: "string list"

definition isImageMimeType :: "(string \<Rightarrow> string) \<Rightarrow> string \<Rightarrow> bool" where
  "isImageMimeType L mimeType =
     (if mimeType = '''' then False
      else let mimeTypeLower = ToLower L mimeType in HasPrefix mimeTypeLower ''image/'')"

fun containsString :: "string list \<Rightarrow> string \<Rightarrow> bool" where
  "containsString [] val = False"
| "containsString (item # rest) val = (if item = val then True else containsString rest val)"

definition processInlineData ::
  "(string \<Rightarrow> string) \<Rightarrow> Blob option \<Rightarrow> VisionDetectionResult \<Rightarrow> VisionDetectionResult" where
  "processInlineData L blob result =
     (case blob of
        None \<Rightarrow> result
      | Some b \<Rightarrow>
          if \<not> isImageMimeType L (blob_MIMEType b) then result
          else
            let r1 = result\<lparr>HasVisionContent := True, ImageCount := ImageCount result + 1\<rparr>;
                r2 = (if blob_MIMEType b \<noteq> '''' \<and> \<not> containsString (MediaTypes r1) (blob_MIMEType b)
                      then r1\<lparr>MediaTypes := MediaTypes r1 @ [blob_MIMEType b]\<rparr>
                      else r1)
            in (case blob_Data b of
                  None \<Rightarrow> r2
                | Some d \<Rightarrow> r2\<lparr>TotalImageSizeBytes := TotalImageSizeBytes r2 + length d\<rparr>))"

definition processFileData ::
  "(string \<Rightarrow> string) \<Rightarrow> FileData option \<Rightarrow> VisionDetectionResult \<Rightarrow> VisionDetectionResult" where
  "processFileData L fileData result =
     (case fileData of
        None \<Rightarrow> result
      | Some f \<Rightarrow>
          if \<not> isImageMimeType L (file_MIMEType f) then result
          else
            let r1 = result\<lparr>HasVisionContent := True, ImageCount := ImageCount result + 1\<rparr>
            in (if file_MIMEType f \<noteq> '''' \<and> \<not> containsString (MediaTypes r1) (file_MIMEType f)
                then r1\<lparr>MediaTypes := MediaTypes r1 @ [file_MIMEType f]\<rparr>
                else r1))"

text \<open>The inner loop of \<^verbatim>\<open>DetectVisionContent\<close>, over the parts of one content.\<close>

fun detectParts ::
  "(string \<Rightarrow> string) \<Rightarrow> Part option list \<Rightarrow> VisionDetectionResult \<Rightarrow> VisionDetectionResult" where
  "detectParts L [] result = result"
| "detectParts L (part # rest) result =
     (case part of
        None \<Rightarrow> detectParts L rest result
      | Some p \<Rightarrow>
          let r1 = (if InlineData p \<noteq> None then processInlineData L (InlineData p) result
                    else result);
              r2 = (if FileData p \<noteq> None then processFileData L (FileData p) r1 else r1)
          in detectParts L rest r2)"

text \<open>The outer loop, over the contents.\<close>

fun detectContents ::
  "(string \<Rightarrow> string) \<Rightarrow> Content option list \<Rightarrow> VisionDetectionResult \<Rightarrow> VisionDetectionResult" where
  "detectContents L [] result = result"
| "detectContents L (content # rest) result =
     (case content of
        None \<Rightarrow> detectContents L rest result
      | Some c \<Rightarrow> detectContents L rest (detectParts L (Parts c) result))"

definition DetectVisionContent ::
  "(string \<Rightarrow> string) \<Rightarrow> Content option list \<Rightarrow> VisionDetectionResult" where
  "DetectVisionContent L contents =
     detectContents L contents
       \<lparr>HasVisionContent = False, ImageCount = 0, TotalImageSizeBytes = 0, MediaTypes = []\<rparr>"

text \<open>
  What the specification counts, written independently of the loops: the image
  items of a request, in order, each with its media type and its byte size (0 for a
  file reference).
\<close>

definition spec_part_images :: "(string \<Rightarrow> string) \<Rightarrow> Part option \<Rightarrow> (string \<times> nat) list" where
  "spec_part_images L part =
     (case part of
        None \<Rightarrow> []
      | Some p \<Rightarrow>
          (case InlineData p of
             None \<Rightarrow> []
           | Some b \<Rightarrow>
               if isImageMimeType L (blob_MIMEType b)
               then [(blob_MIMEType b, (case blob_Data b of None \<Rightarrow> 0 | Some d \<Rightarrow> length d))]
               else [])
          @ (case FileData p of
               None \<Rightarrow> []
             | Some f \<Rightarrow> if isImageMimeType L (file_MIMEType f) then [(file_MIMEType f, 0)] else []))"

definition spec_images :: "(string \<Rightarrow> string) \<Rightarrow> Content option list \<Rightarrow> (string \<times> nat) list" where
  "spec_images L contents =
     concat (map (\<lambda>content. case content of
                               None \<Rightarrow> []
                             | Some c \<Rightarrow> concat (map (spec_part_images L) (Parts c)))
                 contents)"

text \<open>What one image item adds to the statistics.\<close>

definition spec_add_image :: "VisionDetectionResult \<Rightarrow> string \<times> nat \<Rightarrow> VisionDetectionResult" where
  "spec_add_image r item =
     r\<lparr>HasVisionContent := True,
       ImageCount := ImageCount r + 1,
       TotalImageSizeBytes := TotalImageSizeBytes r + snd item,
       MediaTypes := (if fst item \<in> set (MediaTypes r) then MediaTypes r
                      else MediaTypes r @ [fst item])\<rparr>"

text \<open>The request of the specification's scenario: one inline PNG of 1024 bytes.\<close>

definition example_png_request :: "Content option list" where
  "example_png_request =
     [Some \<lparr>Role = ''user'',
            Parts = [Some \<lparr>Text = '''',
                           InlineData = Some \<lparr>blob_MIMEType = ''image/png'',
                                               blob_Data = Some (replicate 1024 (CHR 0x00))\<rparr>,
                           FileData = None\<rparr>]\<rparr>]"

section \<open>The metering payload\<close>

text \<open>
  A payload is a Go \<^verbatim>\<open>map[string]interface{}\<close>: a map from keys to values. The values
  the middleware stores are strings, \<^verbatim>\<open>int64\<close> numbers, booleans and a \<^verbatim>\<open>float32\<close>;
  caller metadata may hold lists and nested objects as well. An \<^verbatim>\<open>int64\<close> is
  written as the integer it denotes: every number stored below is the image of an
  \<^verbatim>\<open>int32\<close> or a difference of two clock readings.
\<close>

datatype Value =
    VString string
  | VInt64 int
  | VBool bool
  | VFloat32 float32
  | VList "Value list"
  | VObject "(string \<times> Value) list"

type_synonym Payload = "string \<rightharpoonup> Value"

definition BuildVisionAttributes :: "VisionDetectionResult \<Rightarrow> Payload option" where
  "BuildVisionAttributes result =
     (if \<not> HasVisionContent result then None
      else Some (map_of
        [(''vision_image_count'', VInt64 (int (ImageCount result))),
         (''vision_total_size_bytes'', VInt64 (int (TotalImageSizeBytes result))),
         (''vision_media_types'', VList (map VString (MediaTypes result)))]))"

text \<open>
  Instants (\<^verbatim>\<open>time.Time\<close>) are nanoseconds since the Unix epoch and durations
  (\<^verbatim>\<open>time.Duration\<close>, an \<^verbatim>\<open>int64\<close>) are nanoseconds. \<^verbatim>\<open>Time.Sub\<close> returns the
  difference of two instants, or the largest (smallest) duration when the difference
  does not fit; \<^verbatim>\<open>Duration.Milliseconds\<close> divides by a million, truncating towards
  zero as Go's integer division does. The decimal rendering of \<^verbatim>\<open>%d\<close> and Go's
  remainder \<^verbatim>\<open>%\<close> (which takes the sign of the dividend) are written out.
\<close>

type_synonym Time = int

definition truncDiv :: "int \<Rightarrow> int \<Rightarrow> int" where
  "truncDiv a b = (if (a < 0) = (b < 0) then \<bar>a\<bar> div \<bar>b\<bar> else - (\<bar>a\<bar> div \<bar>b\<bar>))"

definition truncRem :: "int \<Rightarrow> int \<Rightarrow> int" where
  "truncRem a b = (if a < 0 then - (\<bar>a\<bar> mod \<bar>b\<bar>) else \<bar>a\<bar> mod \<bar>b\<bar>)"

definition maxDuration :: int where
  "maxDuration = 2 ^ 63 - 1"

definition minDuration :: int where
  "minDuration = - (2 ^ 63)"

definition Sub :: "Time \<Rightarrow> Time \<Rightarrow> int" where
  "Sub t u =
     (let d = t - u
      in if maxDuration < d then maxDuration else if d < minDuration then minDuration else d)"

definition Milliseconds :: "int \<Rightarrow> int" where
  "Milliseconds d = truncDiv d 1000000"

function showNat :: "nat \<Rightarrow> string" where
  "showNat n = (if n < 10 then [char_of (48 + n)]
                else showNat (n div 10) @ [char_of (48 + n mod 10)])"
  by pat_completeness auto
termination
  by (relation "measure (\<lambda>n. n)") auto

declare showNat.simps [simp del]

definition showInt :: "int \<Rightarrow> string" where
  "showInt i = (if i < 0 then CHR ''-'' # showNat (nat (- i)) else showNat (nat i))"

text \<open>
  \<^verbatim>\<open>generateRequestID\<close> reads the clock twice; \<open>now1\<close> and \<open>now2\<close> are the two
  readings (\<^verbatim>\<open>UnixNano\<close>).
\<close>

definition generateRequestID :: "Time \<Rightarrow> Time \<Rightarrow> string" where
  "generateRequestID now1 now2 = showInt now1 @ ''-'' @ showInt (truncRem now2 1000)"

text \<open>
  What the payload builder takes from outside this repository's sources: the Unicode
  case tables, the RFC 3339 rendering of an instant (\<^verbatim>\<open>t.UTC().Format(time.RFC3339)\<close>),
  and the two strings returned by \<^verbatim>\<open>GetMiddlewareSource\<close> and \<^verbatim>\<open>GetUserAgent\<close>, whose
  file is not among the sources.
\<close>

record Runtime =
  upperCaseRanges :: "nat \<Rightarrow> nat"
  unicodeToLower :: "string \<Rightarrow> string"
  formatRFC3339 :: "Time \<Rightarrow> string"
  GetMiddlewareSource :: string
  GetUserAgent :: string

definition defaultCostType :: string where
  "defaultCostType = ''AI''"

definition defaultOperationType :: string where
  "defaultOperationType = ''CHAT''"

text \<open>
  The keys copied from the caller's metadata, in the order of the source's
  \<^verbatim>\<open>if v, ok := metadata[k]; ok { payload[k] = v }\<close> statements.
\<close>

definition metadataKeys :: "string list" where
  "metadataKeys =
     [''organizationId'', ''productId'', ''taskType'', ''agent'', ''subscriptionId'',
      ''traceId'', ''subscriber'', ''responseQualityScore'', ''taskId'', ''modelSource'',
      ''mediationLatency'', ''temperature'', ''transactionId'', ''traceType'', ''traceName'',
      ''environment'', ''region'', ''retryNumber'', ''credentialAlias'',
      ''parentTransactionId'']"

definition copyMetadataKey :: "Payload \<Rightarrow> Payload \<Rightarrow> string \<Rightarrow> Payload" where
  "copyMetadataKey metadata payload k =
     (case metadata k of None \<Rightarrow> payload | Some v \<Rightarrow> payload(k \<mapsto> v))"

text \<open>
  \<^verbatim>\<open>buildGoogleMeteringPayloadWithTiming\<close> in two steps. First the timestamps, the
  durations, the token counts and the stop reason are computed and the map literal
  \<^verbatim>\<open>payload := map[string]interface{}{...}\<close> is built.
\<close>

definition initialPayload ::
  "Runtime \<Rightarrow> GenerateContentResponse option \<Rightarrow> string \<Rightarrow> bool
     \<Rightarrow> Time \<Rightarrow> Time \<Rightarrow> Time \<Rightarrow> string \<Rightarrow> Time \<Rightarrow> Time \<Rightarrow> Payload" where
  "initialPayload rt resp model isStreamed requestTime completionStartTime responseTime
       provider now1 now2 =
     (let requestTimeISO = formatRFC3339 rt requestTime;
          completionStartTimeISO = formatRFC3339 rt completionStartTime;
          responseTimeISO = formatRFC3339 rt responseTime;
          requestDuration = Milliseconds (Sub responseTime requestTime);
          timeToFirstToken = Milliseconds (Sub completionStartTime requestTime);
          usage = (case resp of None \<Rightarrow> None | Some r \<Rightarrow> UsageMetadata r);
          totalTokens = (case usage of
                           None \<Rightarrow> 0
                         | Some u \<Rightarrow>
                             if sint (TotalTokenCount u) = 0
                             then sint (PromptTokenCount u + CandidatesTokenCount u)
                             else sint (TotalTokenCount u));
          inputTokens = (case usage of None \<Rightarrow> 0 | Some u \<Rightarrow> sint (PromptTokenCount u));
          outputTokens = (case usage of None \<Rightarrow> 0 | Some u \<Rightarrow> sint (CandidatesTokenCount u));
          cachedTokens = (case usage of None \<Rightarrow> 0 | Some u \<Rightarrow> sint (CachedContentTokenCount u));
          thinkingTokens = (case usage of None \<Rightarrow> 0 | Some u \<Rightarrow> sint (ThoughtsTokenCount u));
          finishReason = ExtractFinishReason resp;
          stopReason = MapGoogleFinishReason (upperCaseRanges rt) finishReason StopReasonEnd
      in map_of
            [(''stopReason'', VString stopReason),
             (''costType'', VString defaultCostType),
             (''isStreamed'', VBool isStreamed),
             (''operationType'', VString defaultOperationType),
             (''inputTokenCount'', VInt64 inputTokens),
             (''outputTokenCount'', VInt64 outputTokens),
             (''reasoningTokenCount'', VInt64 thinkingTokens),
             (''cacheCreationTokenCount'', VInt64 0),
             (''cacheReadTokenCount'', VInt64 cachedTokens),
             (''totalTokenCount'', VInt64 totalTokens),
             (''model'', VString model),
             (''transactionId'', VString (generateRequestID now1 now2)),
             (''responseTime'', VString responseTimeISO),
             (''requestDuration'', VInt64 requestDuration),
             (''provider'', VString provider),
             (''requestTime'', VString requestTimeISO),
             (''completionStartTime'', VString completionStartTimeISO),
             (''timeToFirstToken'', VInt64 timeToFirstToken),
             (''middlewareSource'', VString (GetMiddlewareSource rt))])"

text \<open>
  Then the error reason, the temperature of the request configuration and the
  allow-listed metadata keys are added, each assignment overwriting what the
  map held under that key. The error is known by its text (\<^verbatim>\<open>err.Error()\<close>).
\<close>

definition buildGoogleMeteringPayloadWithTiming ::
  "Runtime \<Rightarrow> GenerateContentResponse option \<Rightarrow> string \<Rightarrow> Payload option \<Rightarrow> bool
     \<Rightarrow> Time \<Rightarrow> Time \<Rightarrow> Time \<Rightarrow> string \<Rightarrow> GenerateContentConfig option \<Rightarrow> string option
     \<Rightarrow> Time \<Rightarrow> Time \<Rightarrow> Payload" where
  "buildGoogleMeteringPayloadWithTiming rt resp model metadata isStreamed requestTime
       completionStartTime responseTime provider config err now1 now2 =
     (let payload0 = initialPayload rt resp model isStreamed requestTime completionStartTime
                       responseTime provider now1 now2;
          payload1 = (case err of
                        None \<Rightarrow> payload0
                      | Some e \<Rightarrow> payload0(''errorReason'' \<mapsto> VString e));
          payload2 = (case config of
                        None \<Rightarrow> payload1
                      | Some c \<Rightarrow>
                          (case Temperature c of
                             None \<Rightarrow> payload1
                           | Some t \<Rightarrow> payload1(''temperature'' \<mapsto> VFloat32 t)))
      in (case metadata of
            None \<Rightarrow> payload2
          | Some md \<Rightarrow> foldl (copyMetadataKey md) payload2 metadataKeys))"

section \<open>The instrumented streaming call\<close>

text \<open>
  A background metering task: the arguments with which the wrapper starts
  \<^verbatim>\<open>go func() { ... m.sendMeteringDataWithTiming(...) }()\<close>. The context, the model
  name, the metadata and the request configuration are those of the call itself and
  are the same in every task of a call.
\<close>

record MeteringTask =
  task_resp :: "GenerateContentResponse option"
  task_isStreamed :: bool
  task_requestTime :: Time
  task_completionStartTime :: Time
  task_responseTime :: Time
  task_err :: "string option"

text \<open>
  The SDK's stream yields pairs \<^verbatim>\<open>(resp, err)\<close>: a response chunk with a nil error, or
  an error. The consumer is the \<^verbatim>\<open>yield\<close> callback of Go's range-over-function
  protocol; its answer may depend on everything it has been handed so far, so it is
  a function of the items forwarded up to and including the current one. The clock
  is read by \<^verbatim>\<open>time.Now()\<close>: \<open>clock n\<close> is the result of the \<open>n\<close>-th reading made by
  the wrapper.
\<close>

datatype StreamItem = Chunk GenerateContentResponse | StreamErr string

record StreamState =
  st_lastUsage :: "GenerateContentResponseUsageMetadata option"
  st_completionStartTime :: Time
  st_firstTokenReceived :: bool
  st_chunkCount :: nat
  st_clockReads :: nat

definition zeroTime :: Time where
  "zeroTime = - 62135596800 * 1000000000"

text \<open>The response the wrapper rebuilds for the payload builder.\<close>

definition usageOnlyResponse ::
  "GenerateContentResponseUsageMetadata \<Rightarrow> GenerateContentResponse" where
  "usageOnlyResponse u = \<lparr>Candidates = [], UsageMetadata = Some u\<rparr>"

text \<open>
  What the loop body does to the wrapper's variables when a chunk arrives: the chunk
  is counted, the time of the first chunk is recorded, and the chunk's usage
  metadata, if it has any, replaces the one kept so far.
\<close>

definition receiveChunk ::
  "(nat \<Rightarrow> Time) \<Rightarrow> StreamState \<Rightarrow> GenerateContentResponse \<Rightarrow> StreamState" where
  "receiveChunk clock st resp =
     (let st1 = st\<lparr>st_chunkCount := st_chunkCount st + 1\<rparr>;
          st2 = (if \<not> st_firstTokenReceived st1
                 then st1\<lparr>st_completionStartTime := clock (st_clockReads st1),
                          st_firstTokenReceived := True,
                          st_clockReads := st_clockReads st1 + 1\<rparr>
                 else st1)
      in (case UsageMetadata resp of
            Some u \<Rightarrow> st2\<lparr>st_lastUsage := Some u\<rparr>
          | None \<Rightarrow> st2))"

text \<open>
  The body of the iterator returned by \<^verbatim>\<open>GenerateContentStream\<close>: the
  \<^verbatim>\<open>for resp, err := range stream\<close> loop and the code after it. The result is the
  list of items handed to the consumer and the list of metering tasks started.
\<close>

fun streamLoop ::
  "(nat \<Rightarrow> Time) \<Rightarrow> (StreamItem list \<Rightarrow> bool) \<Rightarrow> Time \<Rightarrow> StreamState \<Rightarrow> StreamItem list
     \<Rightarrow> StreamItem list \<Rightarrow> StreamItem list \<times> MeteringTask list" where
  "streamLoop clock yield requestTime st forwarded [] =
     (let responseTime = clock (st_clockReads st)
      in (forwarded,
          (case st_lastUsage st of
             Some u \<Rightarrow>
               [\<lparr>task_resp = Some (usageOnlyResponse u), task_isStreamed = True,
                 task_requestTime = requestTime,
                 task_completionStartTime = st_completionStartTime st,
                 task_responseTime = responseTime, task_err = None\<rparr>]
           | None \<Rightarrow> [])))"
| "streamLoop clock yield requestTime st forwarded (StreamErr err # rest) =
     (let responseTime = clock (st_clockReads st)
      in (forwarded @ [StreamErr err],
          (case st_lastUsage st of
             Some u \<Rightarrow>
               [\<lparr>task_resp = Some (usageOnlyResponse u), task_isStreamed = True,
                 task_requestTime = requestTime,
                 task_completionStartTime =
                   (if \<not> st_firstTokenReceived st then responseTime
                    else st_completionStartTime st),
                 task_responseTime = responseTime, task_err = Some err\<rparr>]
           | None \<Rightarrow>
               [\<lparr>task_resp = None, task_isStreamed = True,
                 task_requestTime = requestTime,
                 task_completionStartTime = responseTime,
                 task_responseTime = responseTime, task_err = Some err\<rparr>])))"
| "streamLoop clock yield requestTime st forwarded (Chunk resp # rest) =
     (let st' = receiveChunk clock st resp;
          forwarded' = forwarded @ [Chunk resp]
      in if \<not> yield forwarded'
         then (let responseTime = clock (st_clockReads st')
               in (forwarded',
                   (case st_lastUsage st' of
                      Some u \<Rightarrow>
                        [\<lparr>task_resp = Some (usageOnlyResponse u), task_isStreamed = True,
                          task_requestTime = requestTime,
                          task_completionStartTime = st_completionStartTime st',
                          task_responseTime = responseTime, task_err = None\<rparr>]
                    | None \<Rightarrow> [])))
         else streamLoop clock yield requestTime st' forwarded' rest)"

definition GenerateContentStream ::
  "(nat \<Rightarrow> Time) \<Rightarrow> (StreamItem list \<Rightarrow> bool) \<Rightarrow> StreamItem list
     \<Rightarrow> StreamItem list \<times> MeteringTask list" where
  "GenerateContentStream clock yield stream =
     (let requestTime = clock 0
      in streamLoop clock yield requestTime
           \<lparr>st_lastUsage = None, st_completionStartTime = zeroTime,
            st_firstTokenReceived = False, st_chunkCount = 0, st_clockReads = 1\<rparr>
           [] stream)"

text \<open>
  The latest usage block among the chunks handed to the consumer: what the
  specification calls the usage accumulated up to that point.
\<close>

fun spec_accumulated_usage ::
  "StreamItem list \<Rightarrow> GenerateContentResponseUsageMetadata option" where
  "spec_accumulated_usage [] = None"
| "spec_accumulated_usage (Chunk r # rest) =
     (case spec_accumulated_usage rest of
        Some u \<Rightarrow> Some u
      | None \<Rightarrow> UsageMetadata r)"
| "spec_accumulated_usage (StreamErr e # rest) = spec_accumulated_usage rest"

fun isStreamErr :: "StreamItem \<Rightarrow> bool" where
  "isStreamErr (StreamErr e) = True"
| "isStreamErr (Chunk r) = False"

text \<open>
  \<^verbatim>\<open>sendMeteringDataWithTiming\<close> builds the payload of a task; \<open>now1\<close> and \<open>now2\<close>
  are the clock readings of the transaction id.
\<close>

definition taskPayload ::
  "Runtime \<Rightarrow> string \<Rightarrow> Payload option \<Rightarrow> string \<Rightarrow> GenerateContentConfig option
     \<Rightarrow> Time \<Rightarrow> Time \<Rightarrow> MeteringTask \<Rightarrow> Payload" where
  "taskPayload rt model metadata provider config now1 now2 task =
     buildGoogleMeteringPayloadWithTiming rt (task_resp task) model metadata
       (task_isStreamed task) (task_requestTime task) (task_completionStartTime task)
       (task_responseTime task) provider config (task_err task) now1 now2"

text \<open>
  What the consumer is handed, written independently of the wrapper's state: the
  items of the stream, unchanged and in order, up to and including the first error
  or the first chunk at which the consumer answers that it wants no more.
\<close>

fun spec_forwarded ::
  "(StreamItem list \<Rightarrow> bool) \<Rightarrow> StreamItem list \<Rightarrow> StreamItem list \<Rightarrow> StreamItem list" where
  "spec_forwarded yield seen [] = []"
| "spec_forwarded yield seen (StreamErr e # rest) = [StreamErr e]"
| "spec_forwarded yield seen (Chunk r # rest) =
     Chunk r # (if yield (seen @ [Chunk r]) then spec_forwarded yield (seen @ [Chunk r]) rest
                else [])"

text \<open>Concrete clocks and consumers for the examples.\<close>

definition example_clock :: "nat \<Rightarrow> Time" where
  "example_clock n = 1000000 * int n"

definition consume_all :: "StreamItem list \<Rightarrow> bool" where
  "consume_all forwarded = True"

definition stop_after_first :: "StreamItem list \<Rightarrow> bool" where
  "stop_after_first forwarded = (length forwarded < 1)"

definition example_runtime :: Runtime where
  "example_runtime =
     \<lparr>upperCaseRanges = upper_table_example, unicodeToLower = map lowerASCII,
      formatRFC3339 = showInt, GetMiddlewareSource = ''revenium-google-go'',
      GetUserAgent = ''revenium-middleware-google-go''\<rparr>"

definition example_usage :: GenerateContentResponseUsageMetadata where
  "example_usage =
     \<lparr>PromptTokenCount = 10, CandidatesTokenCount = 5, TotalTokenCount = 15,
      CachedContentTokenCount = 0, ThoughtsTokenCount = 0\<rparr>"

definition chunk_with_usage :: GenerateContentResponse where
  "chunk_with_usage =
     \<lparr>Candidates = [Some \<lparr>FinishReason = ''MAX_TOKENS'', cand_Content = None\<rparr>],
      UsageMetadata = Some example_usage\<rparr>"

definition chunk_without_usage :: GenerateContentResponse where
  "chunk_without_usage =
     \<lparr>Candidates = [Some \<lparr>FinishReason = '''', cand_Content = None\<rparr>],
      UsageMetadata = None\<rparr>"

section \<open>Delivery with retry\<close>

text \<open>
  Modelled from the spec: the error constructors \<^verbatim>\<open>NewConfigError\<close>,
  \<^verbatim>\<open>NewMeteringError\<close>, \<^verbatim>\<open>NewNetworkError\<close>, \<^verbatim>\<open>NewValidationError\<close> and the test
  \<^verbatim>\<open>IsValidationError\<close> are called by the sources but their file is not among
  them. The specification's taxonomy (ConfigError, ProviderError, NetworkError,
  ValidationError, MeteringError) gives the kinds; a constructor builds an error of
  its kind from a message and an optional cause, and \<^verbatim>\<open>IsValidationError\<close> holds
  of the errors of kind ValidationError.
\<close>

datatype ErrorType =
    ErrorTypeConfig
  | ErrorTypeProvider
  | ErrorTypeNetwork
  | ErrorTypeValidation
  | ErrorTypeMetering

text \<open>
  A Go \<^verbatim>\<open>error\<close>: an error of this package, an error made by \<^verbatim>\<open>fmt.Errorf\<close> (its
  text and, for \<^verbatim>\<open>%w\<close>, the error it wraps), or an error of a library, known by its
  text.
\<close>

datatype GoError =
    ReveniumError ErrorType string "GoError option"
  | Errorf string "GoError option"
  | LibraryError string

definition NewConfigError :: "string \<Rightarrow> GoError option \<Rightarrow> GoError" where
  "NewConfigError message cause = ReveniumError ErrorTypeConfig message cause"

definition NewMeteringError :: "string \<Rightarrow> GoError option \<Rightarrow> GoError" where
  "NewMeteringError message cause = ReveniumError ErrorTypeMetering message cause"

definition NewNetworkError :: "string \<Rightarrow> GoError option \<Rightarrow> GoError" where
  "NewNetworkError message cause = ReveniumError ErrorTypeNetwork message cause"

definition NewValidationError :: "string \<Rightarrow> GoError option \<Rightarrow> GoError" where
  "NewValidationError message cause = ReveniumError ErrorTypeValidation message cause"

fun IsValidationError :: "GoError \<Rightarrow> bool" where
  "IsValidationError (ReveniumError t message cause) = (t = ErrorTypeValidation)"
| "IsValidationError (Errorf message cause) = False"
| "IsValidationError (LibraryError message) = False"

text \<open>
  The HTTP request of one attempt, and what the libraries answer: \<^verbatim>\<open>json.Marshal\<close>
  gives the body or an error, \<^verbatim>\<open>http.NewRequest\<close> may reject the URL, and
  \<^verbatim>\<open>client.Do\<close> gives a transport error or a response, of which the code reads the
  status code and the body. The answer of the network may differ from one attempt to
  the next: \<open>clientDo\<close> takes the number of the attempt.
\<close>

record Request =
  req_method :: string
  req_url :: string
  req_headers :: "(string \<times> string) list"
  req_body :: string

datatype HttpOutcome = TransportError GoError | HttpResponse int string

record Transport =
  jsonMarshal :: "Payload \<Rightarrow> GoError + string"
  httpNewRequest :: "string \<Rightarrow> GoError option"
  clientDo :: "nat \<Rightarrow> Request \<Rightarrow> HttpOutcome"

definition meteringEndpoint :: string where
  "meteringEndpoint = ''/meter/v2/ai/completions''"

text \<open>
  \<^verbatim>\<open>sendMeteringRequest\<close>: the error returned (\<open>None\<close> for nil) and the request
  issued on the network, if the attempt got that far.
\<close>

definition sendMeteringRequest ::
  "Runtime \<Rightarrow> Transport \<Rightarrow> nat \<Rightarrow> Config option \<Rightarrow> Payload
     \<Rightarrow> GoError option \<times> Request option" where
  "sendMeteringRequest rt tr attempt config payload =
     (case config of
        None \<Rightarrow> (Some (NewConfigError ''metering not configured'' None), None)
      | Some cfg \<Rightarrow>
          if ReveniumAPIKey cfg = ''''
          then (Some (NewConfigError ''metering not configured'' None), None)
          else
            let url = ReveniumBaseURL cfg @ meteringEndpoint in
            (case jsonMarshal tr payload of
               Inl err \<Rightarrow>
                 (Some (NewMeteringError ''failed to marshal metering payload'' (Some err)), None)
             | Inr jsonData \<Rightarrow>
                 (case httpNewRequest tr url of
                    Some err \<Rightarrow>
                      (Some (NewMeteringError ''failed to create metering request'' (Some err)),
                       None)
                  | None \<Rightarrow>
                      let req = \<lparr>req_method = ''POST'', req_url = url,
                                 req_headers =
                                   [(''Content-Type'', ''application/json; charset=utf-8''),
                                    (''x-api-key'', ReveniumAPIKey cfg),
                                    (''User-Agent'', GetUserAgent rt)],
                                 req_body = jsonData\<rparr>
                      in (case clientDo tr attempt req of
                            TransportError err \<Rightarrow>
                              (Some (NewNetworkError ''metering request failed'' (Some err)),
                               Some req)
                          | HttpResponse statusCode body \<Rightarrow>
                              if statusCode < 200 \<or> statusCode \<ge> 300
                              then
                                (if statusCode \<ge> 400 \<and> statusCode < 500
                                 then (Some (NewValidationError
                                         (''metering API returned '' @ showInt statusCode
                                            @ '': '' @ body) None),
                                       Some req)
                                 else (Some (NewMeteringError ''metering API error''
                                         (Some (Errorf (''status '' @ showInt statusCode
                                                  @ '': '' @ body) None))),
                                       Some req))
                              else (None, Some req)))))"

text \<open>
  What \<^verbatim>\<open>sendMeteringWithRetry\<close> does, in order: sleeps (in milliseconds) and
  attempts, each attempt with the payload it was given and the request it issued.
\<close>

datatype DeliveryEvent = Sleep nat | Attempt Payload "Request option"

definition maxRetries :: nat where
  "maxRetries = 3"

definition initialBackoff :: nat where
  "initialBackoff = 100"

text \<open>The \<^verbatim>\<open>for attempt := 0; attempt < maxRetries; attempt++\<close> loop.\<close>

function retryLoop ::
  "Runtime \<Rightarrow> Transport \<Rightarrow> Config option \<Rightarrow> Payload \<Rightarrow> nat \<Rightarrow> nat \<Rightarrow> GoError option
     \<Rightarrow> DeliveryEvent list \<Rightarrow> GoError option \<times> DeliveryEvent list" where
  "retryLoop rt tr config payload attempt backoff lastErr events =
     (if attempt < maxRetries
      then
        let slept = (if attempt > 0 then events @ [Sleep backoff] else events);
            backoff' = (if attempt > 0 then backoff * 2 else backoff);
            (err, req) = sendMeteringRequest rt tr attempt config payload;
            events' = slept @ [Attempt payload req]
        in (case err of
              None \<Rightarrow> (None, events')
            | Some e \<Rightarrow>
                if IsValidationError e then (Some e, events')
                else retryLoop rt tr config payload (attempt + 1) backoff' (Some e) events')
      else
        (Some (NewMeteringError ''metering failed after retries''
           (Some (Errorf (''retries: '' @ showInt (int maxRetries) @ '', last error: %w'') lastErr))),
         events))"
  by pat_completeness auto
termination
  by (relation "measure (\<lambda>(rt, tr, config, payload, attempt, backoff, lastErr, events).
        maxRetries - attempt)") auto

declare retryLoop.simps [simp del]

definition sendMeteringWithRetry ::
  "Runtime \<Rightarrow> Transport \<Rightarrow> Config option \<Rightarrow> Payload \<Rightarrow> GoError option \<times> DeliveryEvent list" where
  "sendMeteringWithRetry rt tr config payload =
     retryLoop rt tr config payload 0 initialBackoff None []"

text \<open>
  \<^verbatim>\<open>sendMeteringDataWithTiming\<close>: one payload is built, then handed to
  \<^verbatim>\<open>sendMeteringWithRetry\<close>. The result is the payload, the delivery error (only
  logged by the source) and the delivery events.
\<close>

definition sendMeteringDataWithTiming ::
  "Runtime \<Rightarrow> Transport \<Rightarrow> Config option \<Rightarrow> string \<Rightarrow> Payload option \<Rightarrow> string
     \<Rightarrow> GenerateContentConfig option \<Rightarrow> Time \<Rightarrow> Time \<Rightarrow> MeteringTask
     \<Rightarrow> Payload \<times> GoError option \<times> DeliveryEvent list" where
  "sendMeteringDataWithTiming rt tr cfg model metadata provider config now1 now2 task =
     (let payload = taskPayload rt model metadata provider config now1 now2 task;
          (err, events) = sendMeteringWithRetry rt tr cfg payload
      in (payload, err, events))"

text \<open>
  Names for the statements about delivery: the error of the \<open>k\<close>-th attempt, the
  event it leaves, whether a result ends the loop (success or a validation error),
  and the number of attempts among the events.
\<close>

definition attemptError ::
  "Runtime \<Rightarrow> Transport \<Rightarrow> Config option \<Rightarrow> Payload \<Rightarrow> nat \<Rightarrow> GoError option" where
  "attemptError rt tr config payload k = fst (sendMeteringRequest rt tr k config payload)"

definition attemptEvent ::
  "Runtime \<Rightarrow> Transport \<Rightarrow> Config option \<Rightarrow> Payload \<Rightarrow> nat \<Rightarrow> DeliveryEvent" where
  "attemptEvent rt tr config payload k =
     Attempt payload (snd (sendMeteringRequest rt tr k config payload))"

definition stopsRetry :: "GoError option \<Rightarrow> bool" where
  "stopsRetry result = (case result of None \<Rightarrow> True | Some e \<Rightarrow> IsValidationError e)"

fun isAttempt :: "DeliveryEvent \<Rightarrow> bool" where
  "isAttempt (Attempt payload req) = True"
| "isAttempt (Sleep ms) = False"

definition attemptsMade :: "DeliveryEvent list \<Rightarrow> nat" where
  "attemptsMade events = length (filter isAttempt events)"

text \<open>
  The error \<^verbatim>\<open>sendMeteringRequest\<close> makes of the network's answer, as the
  specification classifies it: 2xx is accepted, 4xx is a permanent validation
  failure, a transport failure is a network error and any other status a metering
  error.
\<close>

definition spec_classify :: "HttpOutcome \<Rightarrow> GoError option" where
  "spec_classify outcome =
     (case outcome of
        TransportError cause \<Rightarrow> Some (NewNetworkError ''metering request failed'' (Some cause))
      | HttpResponse statusCode body \<Rightarrow>
          if 200 \<le> statusCode \<and> statusCode < 300 then None
          else if 400 \<le> statusCode \<and> statusCode < 500
          then Some (NewValidationError
                 (''metering API returned '' @ showInt statusCode @ '': '' @ body) None)
          else Some (NewMeteringError ''metering API error''
                 (Some (Errorf (''status '' @ showInt statusCode @ '': '' @ body) None))))"

text \<open>A network for the examples: the status code answered to each attempt.\<close>

definition example_transport :: "int list \<Rightarrow> Transport" where
  "example_transport statuses =
     \<lparr>jsonMarshal = (\<lambda>payload. Inr ''{}''),
      httpNewRequest = (\<lambda>url. None),
      clientDo = (\<lambda>attempt req. if attempt < length statuses
                                 then HttpResponse (statuses ! attempt) ''''
                                 else TransportError (LibraryError ''connection refused''))\<rparr>"

definition example_config :: Config where
  "example_config =
     \<lparr>GoogleAPIKey = ''g-key'', ProjectID = '''', Location = '''',
      ReveniumAPIKey = ''hak_1'', ReveniumBaseURL = ''https://api.revenium.ai'',
      VertexDisabled = False, Debug = False, CapturePrompts = False\<rparr>"

definition example_task :: MeteringTask where
  "example_task =
     \<lparr>task_resp = Some \<lparr>Candidates = [], UsageMetadata = Some example_usage\<rparr>,
      task_isStreamed = False, task_requestTime = 0, task_completionStartTime = 1000000,
      task_responseTime = 1000000, task_err = None\<rparr>"

definition example_metadata :: Payload where
  "example_metadata = map_of [(''transactionId'', VString ''tx-1'')]"

section \<open>Prompt capture and truncation\<close>

definition MaxPromptLength :: nat where
  "MaxPromptLength = 50000"

definition TruncationMarker :: string where
  "TruncationMarker = ''...[TRUNCATED]''"

text \<open>
  The first loop of \<^verbatim>\<open>truncateUTF8Safe\<close>: while the byte at \<open>maxBytes\<close> is a
  continuation byte (\<^verbatim>\<open>(s[maxBytes] & 0xC0) == 0x80\<close>), step back.
\<close>

function backUp :: "string \<Rightarrow> nat \<Rightarrow> nat" where
  "backUp s maxBytes =
     (if maxBytes > 0 \<and> maxBytes < length s
      then (if (of_char (s ! maxBytes) :: 8 word) AND 0xC0 = 0x80
            then backUp s (maxBytes - 1)
            else maxBytes)
      else maxBytes)"
  by pat_completeness auto
termination
  by (relation "measure snd") auto

declare backUp.simps [simp del]

text \<open>The fallback loop over the runes of the string.\<close>

fun appendRunes :: "nat \<Rightarrow> string \<Rightarrow> nat list \<Rightarrow> string" where
  "appendRunes maxBytes result [] = result"
| "appendRunes maxBytes result (r # rest) =
     (if int (length result) + RuneLen r > int maxBytes then result
      else appendRunes maxBytes (result @ encodeRune r) rest)"

text \<open>
  \<^verbatim>\<open>truncateUTF8Safe\<close>. The bound is an \<^verbatim>\<open>int\<close> in the source; the two callers pass
  49986 and 24986, and it is modelled as a natural number.
\<close>

definition truncateUTF8Safe :: "string \<Rightarrow> nat \<Rightarrow> string" where
  "truncateUTF8Safe s maxBytes =
     (if length s \<le> maxBytes then s
      else
        let maxBytes' = backUp s maxBytes;
            result = take maxBytes' s
        in if \<not> ValidString result then appendRunes maxBytes' '''' (runes s)
           else result)"

record PromptData =
  SystemPrompt :: string
  InputMessages :: string
  OutputResponse :: string
  PromptsTruncated :: bool

text \<open>The loop of \<^verbatim>\<open>extractContentText\<close> over the parts.\<close>

fun joinPartTexts :: "string \<Rightarrow> Part option list \<Rightarrow> string" where
  "joinPartTexts result [] = result"
| "joinPartTexts result (part # rest) =
     (case part of
        None \<Rightarrow> joinPartTexts result rest
      | Some p \<Rightarrow>
          if Text p \<noteq> ''''
          then joinPartTexts ((if result \<noteq> '''' then result @ [CHR 0x0A] else result) @ Text p)
                 rest
          else joinPartTexts result rest)"

definition extractContentText :: "Content option \<Rightarrow> string" where
  "extractContentText content =
     (case content of
        None \<Rightarrow> ''''
      | Some c \<Rightarrow> if length (Parts c) = 0 then '''' else joinPartTexts '''' (Parts c))"

text \<open>
  A message of the captured list: its role and its content, the two entries of the
  Go map \<^verbatim>\<open>{"role": role, "content": text}\<close>.
\<close>

record Message =
  msg_role :: string
  msg_content :: string

text \<open>
  The loop of \<^verbatim>\<open>ExtractPromptsFromRequest\<close> over the contents: the messages
  collected and whether one of them was truncated.
\<close>

fun collectMessages :: "Content option list \<Rightarrow> Message list \<times> bool \<Rightarrow> Message list \<times> bool" where
  "collectMessages [] acc = acc"
| "collectMessages (content # rest) (messages, truncated) =
     (case content of
        None \<Rightarrow> collectMessages rest (messages, truncated)
      | Some c \<Rightarrow>
          let halfLimit = MaxPromptLength div 2;
              markerLen = length TruncationMarker;
              role = (if Role c = '''' then ''user'' else Role c);
              messageText = extractContentText (Some c)
          in if length messageText > halfLimit
             then collectMessages rest
                    (messages @ [\<lparr>msg_role = role,
                                   msg_content = truncateUTF8Safe messageText (halfLimit - markerLen)
                                                   @ TruncationMarker\<rparr>],
                     True)
             else collectMessages rest
                    (messages @ [\<lparr>msg_role = role, msg_content = messageText\<rparr>], truncated))"

section \<open>JSON serialization of the messages\<close>

text \<open>
  \<^verbatim>\<open>json.Marshal\<close> of Go's \<^verbatim>\<open>encoding/json\<close>, for the one shape of value the
  code gives it: a non-empty slice of maps with the two string entries \<^verbatim>\<open>role\<close> and
  \<^verbatim>\<open>content\<close>. A slice is written as \<^verbatim>\<open>[e1,e2,...]\<close>, a map as an object with its
  keys in sorted order, and a string between double quotes with these escapes: a
  backslash before a double quote and before a backslash; the two-character escapes
  of backspace, form feed, line feed, carriage return and tab; the six-character
  escape \<^verbatim>\<open>u00XX\<close> after a backslash for the other control characters and for
  \<^verbatim>\<open><\<close>, \<^verbatim>\<open>>\<close> and \<^verbatim>\<open>&\<close>; the escape of U+FFFD for a byte that does not start a
  well-formed UTF-8 sequence; the escapes of U+2028 and U+2029 for these two code
  points. For this shape \<^verbatim>\<open>json.Marshal\<close> returns no error.
\<close>

definition dquote :: char where
  "dquote = CHR 0x22"

definition backslash :: char where
  "backslash = CHR 0x5C"

definition hexDigit :: "nat \<Rightarrow> char" where
  "hexDigit n = ''0123456789abcdef'' ! (n mod 16)"

definition htmlSafe :: "nat \<Rightarrow> bool" where
  "htmlSafe b = (0x20 \<le> b \<and> b < 0x80 \<and> b \<noteq> 0x22 \<and> b \<noteq> 0x26 \<and> b \<noteq> 0x3C \<and> b \<noteq> 0x3E
                 \<and> b \<noteq> 0x5C)"

definition escapeASCII :: "char \<Rightarrow> string" where
  "escapeASCII b =
     (if b = backslash \<or> b = dquote then [backslash, b]
      else if byte b = 0x08 then [backslash, CHR ''b'']
      else if byte b = 0x0C then [backslash, CHR ''f'']
      else if byte b = 0x0A then [backslash, CHR ''n'']
      else if byte b = 0x0D then [backslash, CHR ''r'']
      else if byte b = 0x09 then [backslash, CHR ''t'']
      else [backslash, CHR ''u'', CHR ''0'', CHR ''0'', hexDigit (byte b div 16),
            hexDigit (byte b mod 16)])"

function appendString :: "string \<Rightarrow> string" where
  "appendString src =
     (case src of
        [] \<Rightarrow> []
      | b # rest \<Rightarrow>
          if byte b < 0x80
          then (if htmlSafe (byte b) then b # appendString rest
                else escapeASCII b @ appendString rest)
          else
            let c = fst (DecodeRuneInString (take 4 src));
                size = snd (DecodeRuneInString (take 4 src))
            in if c = RuneError \<and> size = 1
               then [backslash, CHR ''u'', CHR ''f'', CHR ''f'', CHR ''f'', CHR ''d'']
                      @ appendString (drop size src)
               else if c = 0x2028 \<or> c = 0x2029
               then [backslash, CHR ''u'', CHR ''2'', CHR ''0'', CHR ''2'', hexDigit (c mod 16)]
                      @ appendString (drop size src)
               else take size src @ appendString (drop size src))"
  by pat_completeness auto
termination
  by (relation "measure length") (auto simp: DecodeRuneInString_def)

declare appendString.simps [simp del]

definition jsonString :: "string \<Rightarrow> string" where
  "jsonString s = dquote # appendString s @ [dquote]"

definition jsonMessage :: "Message \<Rightarrow> string" where
  "jsonMessage m =
     ''{'' @ jsonString ''content'' @ '':'' @ jsonString (msg_content m) @ '',''
       @ jsonString ''role'' @ '':'' @ jsonString (msg_role m) @ ''}''"

fun jsonJoin :: "string list \<Rightarrow> string" where
  "jsonJoin [] = []"
| "jsonJoin [e] = e"
| "jsonJoin (e # es) = e @ '','' @ jsonJoin es"

definition jsonMarshalMessages :: "Message list \<Rightarrow> GoError + string" where
  "jsonMarshalMessages messages =
     Inr (if messages = [] then ''null'' else ''['' @ jsonJoin (map jsonMessage messages) @ '']'')"

text \<open>
  The JSON grammar (RFC 8259) without insignificant white space and without
  numbers: strings, arrays, objects and the three literals. \<open>jsonChars\<close> is what may
  stand between the quotes of a string.
\<close>

definition isHex :: "char \<Rightarrow> bool" where
  "isHex c = (c \<in> set ''0123456789abcdefABCDEF'')"

inductive jsonChars :: "string \<Rightarrow> bool" where
  chars_end: "jsonChars []"
| chars_plain:
    "0x20 \<le> byte c \<Longrightarrow> c \<noteq> dquote \<Longrightarrow> c \<noteq> backslash \<Longrightarrow> jsonChars cs \<Longrightarrow> jsonChars (c # cs)"
| chars_escape:
    "e \<in> set [dquote, backslash, CHR ''/'', CHR ''b'', CHR ''f'', CHR ''n'', CHR ''r'', CHR ''t'']
       \<Longrightarrow> jsonChars cs \<Longrightarrow> jsonChars (backslash # e # cs)"
| chars_unicode:
    "isHex h1 \<Longrightarrow> isHex h2 \<Longrightarrow> isHex h3 \<Longrightarrow> isHex h4 \<Longrightarrow> jsonChars cs
       \<Longrightarrow> jsonChars (backslash # CHR ''u'' # h1 # h2 # h3 # h4 # cs)"

inductive jsonValue :: "string \<Rightarrow> bool"
  and jsonElements :: "string \<Rightarrow> bool"
  and jsonMembers :: "string \<Rightarrow> bool" where
  value_string: "jsonChars cs \<Longrightarrow> jsonValue (dquote # cs @ [dquote])"
| value_true: "jsonValue ''true''"
| value_false: "jsonValue ''false''"
| value_null: "jsonValue ''null''"
| value_empty_array: "jsonValue ''[]''"
| value_array: "jsonElements es \<Longrightarrow> jsonValue (''['' @ es @ '']'')"
| value_empty_object: "jsonValue ''{}''"
| value_object: "jsonMembers ms \<Longrightarrow> jsonValue (''{'' @ ms @ ''}'')"
| elements_one: "jsonValue v \<Longrightarrow> jsonElements v"
| elements_more: "jsonValue v \<Longrightarrow> jsonElements es \<Longrightarrow> jsonElements (v @ '','' @ es)"
| members_one:
    "jsonChars k \<Longrightarrow> jsonValue v \<Longrightarrow> jsonMembers (dquote # k @ [dquote] @ '':'' @ v)"
| members_more:
    "jsonChars k \<Longrightarrow> jsonValue v \<Longrightarrow> jsonMembers ms
       \<Longrightarrow> jsonMembers (dquote # k @ [dquote] @ '':'' @ v @ '','' @ ms)"

section \<open>Extraction of prompts and responses\<close>

definition ExtractPromptsFromRequest ::
  "Content option list \<Rightarrow> GenerateContentConfig option \<Rightarrow> PromptData" where
  "ExtractPromptsFromRequest contents config =
     (let data0 = \<lparr>SystemPrompt = '''', InputMessages = '''', OutputResponse = '''',
                    PromptsTruncated = False\<rparr>;
          data1 =
            (case config of
               None \<Rightarrow> data0
             | Some cfg \<Rightarrow>
                 (case SystemInstruction cfg of
                    None \<Rightarrow> data0
                  | Some instruction \<Rightarrow>
                      let systemContent = extractContentText (Some instruction)
                      in if systemContent \<noteq> ''''
                         then (if length systemContent > MaxPromptLength
                               then
                                 let markerLen = length TruncationMarker;
                                     truncateAt = MaxPromptLength - markerLen
                                 in data0\<lparr>SystemPrompt :=
                                            truncateUTF8Safe systemContent truncateAt
                                              @ TruncationMarker,
                                          PromptsTruncated := True\<rparr>
                               else data0\<lparr>SystemPrompt := systemContent\<rparr>)
                         else data0))
      in if length contents > 0
         then
           let (messages, truncated) = collectMessages contents ([], PromptsTruncated data1);
               data2 = data1\<lparr>PromptsTruncated := truncated\<rparr>
           in if length messages > 0
              then (case jsonMarshalMessages messages of
                      Inl err \<Rightarrow> data2
                    | Inr jsonBytes \<Rightarrow> data2\<lparr>InputMessages := jsonBytes\<rparr>)
              else data2
         else data1)"

text \<open>
  \<^verbatim>\<open>ExtractResponseContent\<close> reads the response through the SDK's method
  \<^verbatim>\<open>resp.Text()\<close>, the parameter \<open>respText\<close>.
\<close>

definition ExtractResponseContent ::
  "(GenerateContentResponse \<Rightarrow> string) \<Rightarrow> GenerateContentResponse option \<Rightarrow> bool \<Rightarrow> PromptData" where
  "ExtractResponseContent respText resp promptsTruncated =
     (let data = \<lparr>SystemPrompt = '''', InputMessages = '''', OutputResponse = '''',
                   PromptsTruncated = promptsTruncated\<rparr>
      in (case resp of
            None \<Rightarrow> data
          | Some r \<Rightarrow>
              let content = respText r
              in if content = '''' then data
                 else if length content > MaxPromptLength
                 then
                   let markerLen = length TruncationMarker;
                       truncateAt = MaxPromptLength - markerLen
                   in data\<lparr>OutputResponse := truncateUTF8Safe content truncateAt @ TruncationMarker,
                           PromptsTruncated := True\<rparr>
                 else data\<lparr>OutputResponse := content\<rparr>))"

definition ExtractStreamingResponseContent :: "string \<Rightarrow> bool \<Rightarrow> PromptData" where
  "ExtractStreamingResponseContent accumulatedContent promptsTruncated =
     (let data = \<lparr>SystemPrompt = '''', InputMessages = '''', OutputResponse = '''',
                   PromptsTruncated = promptsTruncated\<rparr>
      in if accumulatedContent = '''' then data
         else
           let content = accumulatedContent
           in if length content > MaxPromptLength
              then
                let markerLen = length TruncationMarker;
                    truncateAt = MaxPromptLength - markerLen
                in data\<lparr>OutputResponse := truncateUTF8Safe content truncateAt @ TruncationMarker,
                        PromptsTruncated := True\<rparr>
              else data\<lparr>OutputResponse := content\<rparr>)"

section \<open>Truncation as the specification words it\<close>

text \<open>
  A position \<open>k\<close> of a string is a character boundary when the string is cut there
  into two well-formed UTF-8 strings; \<open>spec_cut s limit\<close> is the last character
  boundary at or before \<open>limit\<close>. A captured text \<open>t\<close> with the limit \<open>limit\<close> gives
  the output \<open>out\<close>: the text itself when it is not longer than the limit (lengths are
  counted in bytes, as \<^verbatim>\<open>len\<close> counts them); otherwise an output of at most \<open>limit\<close>
  bytes that ends with the truncation marker and is valid UTF-8 and, when the text is
  valid UTF-8, is the text cut at the last character boundary at or before the limit
  minus the marker's length, followed by the marker; it has exactly \<open>limit\<close> bytes
  when that position is itself a character boundary.
\<close>

definition spec_char_boundary :: "string \<Rightarrow> nat \<Rightarrow> bool" where
  "spec_char_boundary s k = (k \<le> length s \<and> ValidString (take k s) \<and> ValidString (drop k s))"

definition spec_cut :: "string \<Rightarrow> nat \<Rightarrow> nat" where
  "spec_cut s limit = last (filter (spec_char_boundary s) [0..<Suc limit])"

definition spec_truncated_to :: "nat \<Rightarrow> string \<Rightarrow> string \<Rightarrow> bool" where
  "spec_truncated_to limit t out =
     (if length t \<le> limit then out = t
      else length out \<le> limit
           \<and> suffix TruncationMarker out
           \<and> ValidString out
           \<and> (ValidString t \<longrightarrow>
                out = take (spec_cut t (limit - length TruncationMarker)) t @ TruncationMarker)
           \<and> (ValidString t \<and> spec_char_boundary t (limit - length TruncationMarker) \<longrightarrow>
                length out = limit))"

text \<open>The contents of a request that are present (not nil), in order.\<close>

fun spec_present :: "'a option list \<Rightarrow> 'a list" where
  "spec_present [] = []"
| "spec_present (None # rest) = spec_present rest"
| "spec_present (Some c # rest) = c # spec_present rest"

definition spec_long_message :: "Content \<Rightarrow> bool" where
  "spec_long_message c = (MaxPromptLength div 2 < length (extractContentText (Some c)))"

text \<open>
  What the specification says of one captured message: its role is the content's
  role, \<^verbatim>\<open>user\<close> when that is empty, and its text is the content's text truncated
  with half the limit.
\<close>

definition spec_captured_message :: "Content \<Rightarrow> Message \<Rightarrow> bool" where
  "spec_captured_message c m =
     (msg_role m = (if Role c = '''' then ''user'' else Role c)
      \<and> spec_truncated_to (MaxPromptLength div 2) (extractContentText (Some c)) (msg_content m))"

section \<open>Examples of captured text\<close>

text \<open>
  A text of 50,001 bytes whose byte at offset 49,986 is the second byte of a
  two-byte character (U+00E9), a response and a request configuration that carry it,
  and a request with one message of 25,001 bytes. In the examples the SDK's
  \<^verbatim>\<open>resp.Text()\<close> is applied to a response with one candidate whose content has one text
  part; it returns that text.
\<close>

definition example_long_text :: string where
  "example_long_text =
     replicate 49985 (CHR ''a'') @ [CHR 0xC3, CHR 0xA9] @ replicate 14 (CHR ''a'')"

definition example_Text :: "GenerateContentResponse \<Rightarrow> string" where
  "example_Text r =
     (case Candidates r of
        [] \<Rightarrow> ''''
      | c0 # rest \<Rightarrow>
          (case c0 of None \<Rightarrow> '''' | Some c \<Rightarrow> extractContentText (cand_Content c)))"

definition example_long_content :: Content where
  "example_long_content =
     \<lparr>Role = ''model'',
      Parts = [Some \<lparr>Text = example_long_text, InlineData = None, FileData = None\<rparr>]\<rparr>"

definition example_long_response :: GenerateContentResponse where
  "example_long_response =
     \<lparr>Candidates = [Some \<lparr>FinishReason = ''STOP'', cand_Content = Some example_long_content\<rparr>],
      UsageMetadata = None\<rparr>"

definition example_long_config :: GenerateContentConfig where
  "example_long_config =
     \<lparr>SystemInstruction = Some example_long_content, Temperature = None\<rparr>"

definition example_message_text :: string where
  "example_message_text = replicate 25001 (CHR ''a'')"

definition example_contents :: "Content option list" where
  "example_contents =
     [Some \<lparr>Role = '''',
            Parts = [Some \<lparr>Text = example_message_text, InlineData = None, FileData = None\<rparr>]\<rparr>]"

section \<open>Bytes and characters\<close>

lemma eq_char_of_iff: "c = char_of (n::nat) \<longleftrightarrow> take_bit 8 n = of_char c"
  using char_of_eq_iff [of n c] by auto

lemmas char_eval = byte_def char_of_eq_iff eq_char_of_iff

lemma byte_inj: "byte c = byte d \<longleftrightarrow> c = d"
  by (simp add: byte_def)

lemma byte_lt: "byte c < 256"
  by (simp add: byte_def)

lemma byte_char_of: "n < 256 \<Longrightarrow> byte (char_of n) = n"
  by (simp add: byte_def)

section \<open>UTF-8: the continuation-byte test and the backing-up loop\<close>

lemma bit_positions:
  assumes "n < (8::nat)"
  shows "n \<in> {7, 6, 5, 4, 3, 2, 1, 0}"
  using assms by auto

lemma bit_C0:
  assumes "n < 8"
  shows "bit (0xC0 :: 8 word) n \<longleftrightarrow> n = 6 \<or> n = 7"
  using bit_positions [OF assms] by auto

lemma bit_80:
  assumes "n < 8"
  shows "bit (0x80 :: 8 word) n \<longleftrightarrow> n = 7"
  using bit_positions [OF assms] by auto

lemma and_C0: "((w :: 8 word) AND 0xC0 = 0x80) \<longleftrightarrow> bit w 7 \<and> \<not> bit w 6"
proof
  assume "w AND 0xC0 = 0x80"
  then have "bit (w AND 0xC0) n = bit (0x80 :: 8 word) n" for n
    by simp
  from this [of 7] this [of 6] show "bit w 7 \<and> \<not> bit w 6"
    by (simp add: bit_and_iff)
next
  assume b: "bit w 7 \<and> \<not> bit w 6"
  show "w AND 0xC0 = 0x80"
  proof (rule bit_word_eqI)
    fix n assume "n < LENGTH(8)"
    then have n: "n < 8" by simp
    show "bit (w AND 0xC0) n = bit (0x80 :: 8 word) n"
      unfolding bit_and_iff bit_C0 [OF n] bit_80 [OF n] using b by auto
  qed
qed

lemma top_two_bits:
  assumes "n < 256"
  shows "(bit (n::nat) 7 \<and> \<not> bit n 6) \<longleftrightarrow> (0x80 \<le> n \<and> n \<le> 0xBF)"
proof -
  have a: "bit n 7 = odd (n div 128)" "bit n 6 = odd (n div 64)"
    by (simp_all add: bit_iff_odd)
  have "n div 128 \<le> 1" using assms by simp
  then have b: "odd (n div 128) \<longleftrightarrow> 128 \<le> n"
    by (cases "128 \<le> n") (auto simp: div_eq_0_iff le_Suc_eq)
  show ?thesis
  proof (cases "128 \<le> n")
    case False
    then show ?thesis unfolding a b by simp
  next
    case True
    have c: "n div 64 = 2 \<or> n div 64 = 3" using True assms by arith
    have d: "n div 64 = 2 \<longleftrightarrow> n \<le> 191" using True by arith
    from c d True show ?thesis unfolding a b by auto
  qed
qed

lemma continuation_bits: "((of_char c :: 8 word) AND 0xC0 = 0x80) \<longleftrightarrow> isCont c"
proof -
  have e: "(of_char c :: 8 word) = of_nat (byte c)"
    by (simp add: of_nat_of_char byte_def)
  have "bit (of_nat (byte c) :: 8 word) 7 = bit (byte c) 7"
       "bit (of_nat (byte c) :: 8 word) 6 = bit (byte c) 6"
    by (simp_all add: bit_of_nat_iff)
  then show ?thesis
    unfolding e and_C0 isCont_def using top_two_bits [OF byte_lt [of c]] by simp
qed

lemma backUp_step:
  "0 < m \<Longrightarrow> m < length s \<Longrightarrow> isCont (s ! m) \<Longrightarrow> backUp s m = backUp s (m - 1)"
  by (subst backUp.simps) (simp add: continuation_bits)

lemma backUp_done:
  "\<not> (0 < m \<and> m < length s \<and> isCont (s ! m)) \<Longrightarrow> backUp s m = m"
  by (subst backUp.simps) (auto simp add: continuation_bits)

lemma backUp_le: "backUp s m \<le> m"
proof (induction m)
  case 0
  show ?case by (simp add: backUp_done)
next
  case (Suc m)
  show ?case
  proof (cases "Suc m < length s \<and> isCont (s ! Suc m)")
    case True
    then have "backUp s (Suc m) = backUp s m"
      using backUp_step [of "Suc m" s] by simp
    then show ?thesis using Suc by simp
  next
    case False
    then show ?thesis using backUp_done [of "Suc m" s] by auto
  qed
qed

lemma backUp_stops:
  "m < length s \<Longrightarrow> backUp s m = 0 \<or> \<not> isCont (s ! backUp s m)"
proof (induction m)
  case 0
  show ?case by (simp add: backUp_done)
next
  case (Suc m)
  show ?case
  proof (cases "isCont (s ! Suc m)")
    case True
    then have "backUp s (Suc m) = backUp s m"
      using backUp_step [of "Suc m" s] Suc.prems by simp
    then show ?thesis using Suc by simp
  next
    case False
    then show ?thesis using backUp_done [of "Suc m" s] by auto
  qed
qed

lemma backUp_skipped:
  "m < length s \<Longrightarrow> backUp s m < k \<Longrightarrow> k \<le> m \<Longrightarrow> isCont (s ! k)"
proof (induction m)
  case 0
  then show ?case by simp
next
  case (Suc m)
  show ?case
  proof (cases "isCont (s ! Suc m)")
    case True
    then have e: "backUp s (Suc m) = backUp s m"
      using backUp_step [of "Suc m" s] Suc.prems by simp
    show ?thesis
    proof (cases "k = Suc m")
      case True
      then show ?thesis using \<open>isCont (s ! Suc m)\<close> by simp
    next
      case False
      then show ?thesis using Suc e by simp
    qed
  next
    case False
    then have "backUp s (Suc m) = Suc m"
      using backUp_done [of "Suc m" s] by auto
    then show ?thesis using Suc.prems by simp
  qed
qed

section \<open>UTF-8: well-formed sequences and valid strings\<close>

lemma leadLen_le: "leadLen x \<le> 4"
  by (simp add: leadLen_def)

lemma seqLen_Cons:
  "seqLen (b0 # rest) =
     (if 0 < leadLen (byte b0) \<and> leadLen (byte b0) - 1 \<le> length rest
         \<and> tailOK b0 (take (leadLen (byte b0) - 1) rest)
      then leadLen (byte b0) else 0)"
  by (simp add: Let_def)

lemma seqLen_le_length: "seqLen s \<le> length s"
  by (cases s) (auto simp: Let_def)

lemma seqLen_le4: "seqLen s \<le> 4"
  by (cases s) (auto simp: Let_def leadLen_le)

lemma lead_not_cont: "0 < leadLen (byte c) \<Longrightarrow> \<not> isCont c"
  by (auto simp: leadLen_def isCont_def split: if_splits)

lemma secondOK_cont: "secondOK x (byte c) \<Longrightarrow> isCont c"
  by (auto simp: secondOK_def isCont_def split: if_splits)

lemma tailOK_cont: "tailOK b0 xs \<Longrightarrow> list_all isCont xs"
  by (cases xs) (auto simp: tailOK_def secondOK_cont)

lemma seq_head_not_cont: "0 < seqLen s \<Longrightarrow> \<not> isCont (s ! 0)"
  by (cases s) (auto simp: Let_def lead_not_cont split: if_splits)

lemma seq_parts:
  assumes "0 < seqLen s"
  obtains b0 rest where "s = b0 # rest" and "seqLen s = leadLen (byte b0)"
    and "leadLen (byte b0) - 1 \<le> length rest"
    and "tailOK b0 (take (leadLen (byte b0) - 1) rest)"
proof -
  obtain b0 rest where s: "s = b0 # rest"
    using assms by (cases s) auto
  have "seqLen s = leadLen (byte b0) \<and> leadLen (byte b0) - 1 \<le> length rest
          \<and> tailOK b0 (take (leadLen (byte b0) - 1) rest)"
    using assms unfolding s seqLen_Cons by (auto split: if_splits)
  then show thesis using that s by blast
qed

lemma seq_tail_cont:
  assumes "0 < k" and "k < seqLen s"
  shows "isCont (s ! k)"
proof -
  from assms have "0 < seqLen s" by simp
  then obtain b0 rest where s: "s = b0 # rest" and n: "seqLen s = leadLen (byte b0)"
    and l: "leadLen (byte b0) - 1 \<le> length rest"
    and t: "tailOK b0 (take (leadLen (byte b0) - 1) rest)"
    by (rule seq_parts)
  have "list_all isCont (take (leadLen (byte b0) - 1) rest)"
    using t by (rule tailOK_cont)
  moreover have "k - 1 < length (take (leadLen (byte b0) - 1) rest)"
    using assms n l by simp
  ultimately have "isCont (take (leadLen (byte b0) - 1) rest ! (k - 1))"
    by (simp add: list_all_length)
  then show ?thesis using assms n unfolding s by (simp add: nth_Cons')
qed

lemma seqLen_take_ge:
  assumes "0 < seqLen s" and "seqLen s \<le> k"
  shows "seqLen (take k s) = seqLen s"
proof -
  from assms(1) obtain b0 rest where s: "s = b0 # rest" and n: "seqLen s = leadLen (byte b0)"
    and l: "leadLen (byte b0) - 1 \<le> length rest"
    and t: "tailOK b0 (take (leadLen (byte b0) - 1) rest)"
    by (rule seq_parts)
  obtain j where k: "k = Suc j"
    using assms by (cases k) auto
  have j: "leadLen (byte b0) - 1 \<le> j"
    using assms n k by simp
  have "take (leadLen (byte b0) - 1) (take j rest) = take (leadLen (byte b0) - 1) rest"
    using j by (simp add: min_def)
  then have "seqLen (b0 # take j rest) = leadLen (byte b0)"
    unfolding seqLen_Cons using assms(1) n l t j by simp
  then show ?thesis unfolding s k using n s by simp
qed

lemma seqLen_take_less:
  assumes "0 < k" and "k < seqLen s"
  shows "seqLen (take k s) = 0"
proof -
  from assms have "0 < seqLen s" by simp
  then obtain b0 rest where s: "s = b0 # rest" and n: "seqLen s = leadLen (byte b0)"
    by (rule seq_parts)
  obtain j where k: "k = Suc j"
    using assms by (cases k) auto
  define r where "r = take j rest"
  have "length r \<le> j"
    by (simp add: r_def)
  then have "\<not> leadLen (byte b0) - 1 \<le> length r"
    using assms n k by arith
  then have "seqLen (b0 # r) = 0"
    unfolding seqLen_Cons by simp
  then show ?thesis unfolding s k r_def by simp
qed

lemma seqLen_append:
  assumes "0 < seqLen a"
  shows "seqLen (a @ b) = seqLen a"
proof -
  from assms obtain b0 rest where s: "a = b0 # rest" and n: "seqLen a = leadLen (byte b0)"
    and l: "leadLen (byte b0) - 1 \<le> length rest"
    and t: "tailOK b0 (take (leadLen (byte b0) - 1) rest)"
    by (rule seq_parts)
  have "seqLen (b0 # rest @ b) = leadLen (byte b0)"
    unfolding seqLen_Cons using assms n l t by simp
  then show ?thesis unfolding s using n s by simp
qed

lemma ValidString_Nil: "ValidString []"
  by (subst ValidString.simps) simp

lemma ValidString_step: "0 < seqLen s \<Longrightarrow> ValidString s = ValidString (drop (seqLen s) s)"
  by (subst ValidString.simps) auto

lemma ValidString_bad: "s \<noteq> [] \<Longrightarrow> seqLen s = 0 \<Longrightarrow> \<not> ValidString s"
  by (subst ValidString.simps) simp

lemma ValidString_parts:
  assumes "ValidString s" and "s \<noteq> []"
  shows "0 < seqLen s \<and> ValidString (drop (seqLen s) s)"
proof -
  have p: "0 < seqLen s"
    using assms ValidString_bad [of s] by auto
  then show ?thesis using assms ValidString_step [of s] by simp
qed

lemma ValidString_take_iff:
  "ValidString s \<Longrightarrow> k < length s \<Longrightarrow> ValidString (take k s) \<longleftrightarrow> \<not> isCont (s ! k)"
proof (induction "length s" arbitrary: s k rule: less_induct)
  case less
  then have ne: "s \<noteq> []" by auto
  have p: "0 < seqLen s" and d: "ValidString (drop (seqLen s) s)"
    using ValidString_parts [OF less.prems(1) ne] by simp_all
  consider "k = 0" | "0 < k" "k < seqLen s" | "seqLen s \<le> k"
    by arith
  then show ?case
  proof cases
    case 1
    then show ?thesis using seq_head_not_cont [OF p] by (simp add: ValidString_Nil)
  next
    case 2
    have "take k s \<noteq> []" using 2 ne by simp
    then have "\<not> ValidString (take k s)"
      using seqLen_take_less [OF 2] by (simp add: ValidString_bad)
    then show ?thesis using seq_tail_cont [OF 2] by simp
  next
    case 3
    have "ValidString (take k s) = ValidString (drop (seqLen s) (take k s))"
      using ValidString_step [of "take k s"] seqLen_take_ge [OF p 3] p by simp
    also have "\<dots> = ValidString (take (k - seqLen s) (drop (seqLen s) s))"
      by (simp add: drop_take)
    also have "\<dots> = (\<not> isCont (drop (seqLen s) s ! (k - seqLen s)))"
      using less.hyps [of "drop (seqLen s) s" "k - seqLen s"] p d less.prems(2) 3 by simp
    also have "drop (seqLen s) s ! (k - seqLen s) = s ! k"
      using 3 less.prems(2) by simp
    finally show ?thesis .
  qed
qed

lemma ValidString_drop:
  "ValidString s \<Longrightarrow> ValidString (take k s) \<Longrightarrow> ValidString (drop k s)"
proof (induction "length s" arbitrary: s k rule: less_induct)
  case less
  show ?case
  proof (cases "s = []")
    case True
    then show ?thesis by (simp add: ValidString_Nil)
  next
    case ne: False
    have p: "0 < seqLen s" and d: "ValidString (drop (seqLen s) s)"
      using ValidString_parts [OF less.prems(1) ne] by simp_all
    consider "k = 0" | "0 < k" "k < seqLen s" | "seqLen s \<le> k"
      by arith
    then show ?thesis
    proof cases
      case 1
      then show ?thesis using less.prems by simp
    next
      case 2
      have "take k s \<noteq> []" using 2 ne by simp
      then have "\<not> ValidString (take k s)"
        using seqLen_take_less [OF 2] by (simp add: ValidString_bad)
      then show ?thesis using less.prems by simp
    next
      case 3
      have "ValidString (take k s) = ValidString (drop (seqLen s) (take k s))"
        using ValidString_step [of "take k s"] seqLen_take_ge [OF p 3] p by simp
      also have "\<dots> = ValidString (take (k - seqLen s) (drop (seqLen s) s))"
        by (simp add: drop_take)
      finally have "ValidString (take (k - seqLen s) (drop (seqLen s) s))"
        using less.prems(2) by simp
      then have "ValidString (drop (k - seqLen s) (drop (seqLen s) s))"
        using less.hyps [of "drop (seqLen s) s" "k - seqLen s"] p d ne by simp
      then show ?thesis using 3 by simp
    qed
  qed
qed

lemma ValidString_append:
  "ValidString a \<Longrightarrow> ValidString (a @ b) = ValidString b"
proof (induction "length a" arbitrary: a rule: less_induct)
  case less
  show ?case
  proof (cases "a = []")
    case True
    then show ?thesis by simp
  next
    case ne: False
    have p: "0 < seqLen a" and d: "ValidString (drop (seqLen a) a)"
      using ValidString_parts [OF less.prems(1) ne] by simp_all
    have "ValidString (a @ b) = ValidString (drop (seqLen a) (a @ b))"
      using ValidString_step [of "a @ b"] seqLen_append [OF p] p by simp
    also have "drop (seqLen a) (a @ b) = drop (seqLen a) a @ b"
      using seqLen_le_length [of a] by simp
    also have "ValidString (drop (seqLen a) a @ b) = ValidString b"
      using less.hyps [of "drop (seqLen a) a"] p d ne by simp
    finally show ?thesis .
  qed
qed

section \<open>UTF-8: encoding and decoding of runes\<close>

lemma ValidString_1:
  fixes a :: nat
  assumes "a < 0x80"
  shows "ValidString [char_of a]"
proof -
  have "seqLen [char_of a] = 1"
    unfolding seqLen_Cons using assms by (simp add: byte_char_of leadLen_def tailOK_def)
  then show ?thesis
    using ValidString_step [of "[char_of a]"] by (simp add: ValidString_Nil)
qed

lemma ValidString_2:
  fixes a b :: nat
  assumes "0xC2 \<le> a" and "a \<le> 0xDF" and "0x80 \<le> b" and "b \<le> 0xBF"
  shows "ValidString [char_of a, char_of b]"
proof -
  have "leadLen a = 2" and "secondOK a b"
    using assms by (simp_all add: leadLen_def secondOK_def)
  then have "seqLen [char_of a, char_of b] = 2"
    unfolding seqLen_Cons using assms by (simp add: byte_char_of tailOK_def)
  then show ?thesis
    using ValidString_step [of "[char_of a, char_of b]"] by (simp add: ValidString_Nil)
qed

lemma ValidString_3:
  fixes a b c :: nat
  assumes "0xE0 \<le> a" and "a \<le> 0xEF" and "secondOK a b" and "b < 256"
    and "0x80 \<le> c" and "c \<le> 0xBF"
  shows "ValidString [char_of a, char_of b, char_of c]"
proof -
  have "leadLen a = 3"
    using assms by (simp add: leadLen_def)
  then have "seqLen [char_of a, char_of b, char_of c] = 3"
    unfolding seqLen_Cons using assms by (simp add: byte_char_of tailOK_def isCont_def)
  then show ?thesis
    using ValidString_step [of "[char_of a, char_of b, char_of c]"] by (simp add: ValidString_Nil)
qed

lemma ValidString_4:
  fixes a b c d :: nat
  assumes "0xF0 \<le> a" and "a \<le> 0xF4" and "secondOK a b" and "b < 256"
    and "0x80 \<le> c" and "c \<le> 0xBF" and "0x80 \<le> d" and "d \<le> 0xBF"
  shows "ValidString [char_of a, char_of b, char_of c, char_of d]"
proof -
  have "leadLen a = 4"
    using assms by (simp add: leadLen_def)
  then have "seqLen [char_of a, char_of b, char_of c, char_of d] = 4"
    unfolding seqLen_Cons using assms by (simp add: byte_char_of tailOK_def isCont_def)
  then show ?thesis
    using ValidString_step [of "[char_of a, char_of b, char_of c, char_of d]"]
    by (simp add: ValidString_Nil)
qed

lemma low_six: "0x80 \<le> 0x80 + x mod 64 \<and> 0x80 + x mod 64 \<le> (0xBF::nat)"
proof -
  have "x mod 64 < 64" by simp
  then show ?thesis by arith
qed

lemma div_bounds: "c * (r div c) \<le> r \<and> (0 < c \<longrightarrow> r < c * (r div c) + c)" for r c :: nat
proof -
  have "c * (r div c) + r mod c = r" by simp
  moreover have "0 < c \<longrightarrow> r mod c < c" by simp
  ultimately show ?thesis by arith
qed

lemma split_4096:
  fixes r :: nat
  obtains q m where "q = r div 4096" and "m = (r div 64) mod 64" and "m < 64"
    and "4096 * q + 64 * m \<le> r" and "r < 4096 * q + 64 * m + 64"
proof -
  define d where "d = r div 64"
  define q where "q = r div 4096"
  define m where "m = d mod 64"
  have "d div 64 = q"
    unfolding d_def q_def by (subst div_mult2_eq [symmetric]) simp
  then have d: "d = 64 * q + m"
    unfolding m_def using div_mult_mod_eq [of d 64] by simp
  have "64 * d \<le> r" "r < 64 * d + 64"
    using div_bounds [of 64 r] unfolding d_def by simp_all
  then have "4096 * q + 64 * m \<le> r" "r < 4096 * q + 64 * m + 64"
    unfolding d by simp_all
  moreover have "m < 64" by (simp add: m_def)
  ultimately show thesis using that [of q m] q_def m_def d_def by simp
qed

lemma encodeRune_3_second:
  assumes "0x800 \<le> r" and "r < 0x10000" and "validRune r"
  shows "secondOK (0xE0 + r div 4096) (0x80 + (r div 64) mod 64)"
proof -
  obtain q m where q: "q = r div 4096" and m: "m = (r div 64) mod 64" and m64: "m < 64"
    and lo: "4096 * q + 64 * m \<le> r" and hi: "r < 4096 * q + 64 * m + 64"
    by (rule split_4096)
  have q0: "q = 0 \<Longrightarrow> 32 \<le> m" using assms(1) hi by simp
  have "r < 0xD800 \<or> 0xDFFF < r" using assms(3) by (auto simp: validRune_def)
  then have q13: "q = 13 \<Longrightarrow> m < 32" using lo hi m64 by auto
  have "q < 16" using assms(2) lo by simp
  then show ?thesis
    unfolding secondOK_def q [symmetric] m [symmetric] using m64 q0 q13 by auto
qed

lemma encodeRune_4_second:
  assumes "0x10000 \<le> r" and "r \<le> 0x10FFFF"
  shows "secondOK (0xF0 + r div 262144) (0x80 + (r div 4096) mod 64)"
proof -
  obtain q m where q: "q = (r div 64) div 4096" and m: "m = (r div 64 div 64) mod 64"
    and m64: "m < 64"
    and lo: "4096 * q + 64 * m \<le> r div 64" and hi: "r div 64 < 4096 * q + 64 * m + 64"
    by (rule split_4096)
  have q': "q = r div 262144"
    unfolding q by (subst div_mult2_eq [symmetric]) simp
  have m': "m = (r div 4096) mod 64"
    unfolding m by (subst div_mult2_eq [symmetric]) simp
  have r: "64 * (r div 64) \<le> r" "r < 64 * (r div 64) + 64"
    using div_bounds [of 64 r] by simp_all
  have q0: "q = 0 \<Longrightarrow> 16 \<le> m" using assms(1) hi r by simp
  have q4: "q = 4 \<Longrightarrow> m < 16" using assms(2) lo r by simp
  have "q < 5" using assms(2) lo r by simp
  then show ?thesis
    unfolding secondOK_def q' [symmetric] m' [symmetric] using m64 q0 q4 by auto
qed

lemma ValidString_encodeRune: "ValidString (encodeRune r)"
proof -
  consider "r < 0x80" | "0x80 \<le> r" "r < 0x800" | "0x800 \<le> r" "\<not> validRune r"
    | "0x800 \<le> r" "validRune r" "r < 0x10000" | "validRune r" "0x10000 \<le> r"
    by arith
  then show ?thesis
  proof cases
    case 1
    then show ?thesis by (simp add: encodeRune_def ValidString_1)
  next
    case 2
    have "0xC2 \<le> 0xC0 + r div 64" "0xC0 + r div 64 \<le> 0xDF"
      using 2 by arith+
    then have "ValidString [char_of (0xC0 + r div 64), char_of (0x80 + r mod 64)]"
      using low_six [of r] by (intro ValidString_2) simp_all
    then show ?thesis using 2 by (simp add: encodeRune_def)
  next
    case 3
    have "ValidString [char_of (0xEF::nat), char_of (0xBF::nat), char_of (0xBD::nat)]"
      by (rule ValidString_3) (simp_all add: secondOK_def)
    then show ?thesis using 3 by (simp add: encodeRune_def)
  next
    case 4
    have a: "0xE0 \<le> 0xE0 + r div 4096" "0xE0 + r div 4096 \<le> 0xEF"
      using 4 by arith+
    have b: "0x80 + (r div 64) mod 64 < 256"
      using low_six [of "r div 64"] by arith
    have "ValidString [char_of (0xE0 + r div 4096), char_of (0x80 + (r div 64) mod 64),
            char_of (0x80 + r mod 64)]"
      using a b encodeRune_3_second [of r] 4 low_six [of r] by (intro ValidString_3) simp_all
    then show ?thesis using 4 by (simp add: encodeRune_def)
  next
    case 5
    then have le: "r \<le> 0x10FFFF" by (simp add: validRune_def)
    have a: "0xF0 \<le> 0xF0 + r div 262144" "0xF0 + r div 262144 \<le> 0xF4"
      using le by arith+
    have b: "0x80 + (r div 4096) mod 64 < 256"
      using low_six [of "r div 4096"] by arith
    have "ValidString [char_of (0xF0 + r div 262144), char_of (0x80 + (r div 4096) mod 64),
            char_of (0x80 + (r div 64) mod 64), char_of (0x80 + r mod 64)]"
      using a b encodeRune_4_second [of r] 5 le low_six [of r] low_six [of "r div 64"]
      by (intro ValidString_4) simp_all
    then show ?thesis using 5 by (simp add: encodeRune_def)
  qed
qed

lemma length_encodeRune: "validRune r \<Longrightarrow> int (length (encodeRune r)) = RuneLen r"
  by (auto simp add: encodeRune_def RuneLen_def validRune_def)

lemma leadLen_cases:
  assumes "0 < leadLen x"
  obtains "x < 0x80" "leadLen x = 1"
    | "0xC2 \<le> x" "x \<le> 0xDF" "leadLen x = 2"
    | "0xE0 \<le> x" "x \<le> 0xEF" "leadLen x = 3"
    | "0xF0 \<le> x" "x \<le> 0xF4" "leadLen x = 4"
  using assms unfolding leadLen_def by (auto split: if_splits)

lemma mod_window:
  fixes x c n :: nat
  assumes "c * n \<le> x" and "x < c * n + c"
  shows "x mod c = x - c * n"
proof -
  define k where "k = x - c * n"
  have "x = c * n + k" and "k < c"
    using assms by (simp_all add: k_def)
  then show ?thesis by simp
qed

lemma rune3_range:
  fixes q u v :: nat
  assumes "q < 16" and "u < 64" and "v < 64" and "q = 13 \<Longrightarrow> u < 32"
  shows "validRune (q * 4096 + u * 64 + v)"
proof -
  consider "q < 13" | "q = 13" | "13 < q" by arith
  then show ?thesis
  proof cases
    case 1
    then have "q * 4096 + u * 64 + v < 55296" using assms(2,3) by simp
    then show ?thesis by (simp add: validRune_def)
  next
    case 2
    then have "q * 4096 + u * 64 + v < 55296" using assms(3,4) by simp
    then show ?thesis by (simp add: validRune_def)
  next
    case 3
    then have "57343 < q * 4096 + u * 64 + v" "q * 4096 + u * 64 + v \<le> 1114111"
      using assms(1,2,3) by simp_all
    then show ?thesis by (simp add: validRune_def)
  qed
qed

lemma rune4_range:
  fixes q u v t :: nat
  assumes "q < 5" and "u < 64" and "v < 64" and "t < 64"
    and "q = 0 \<Longrightarrow> 16 \<le> u" and "q = 4 \<Longrightarrow> u < 16"
  shows "validRune (q * 262144 + u * 4096 + v * 64 + t)"
proof -
  consider "q = 0" | "0 < q" "q < 4" | "q = 4" using assms(1) by arith
  then have "57343 < q * 262144 + u * 4096 + v * 64 + t
      \<and> q * 262144 + u * 4096 + v * 64 + t \<le> 1114111"
  proof cases
    case 1
    then show ?thesis using assms(2,3,4,5) by simp
  next
    case 2
    then show ?thesis using assms(2,3,4) by simp
  next
    case 3
    then show ?thesis using assms(2,3,4,6) by simp
  qed
  then show ?thesis by (simp add: validRune_def)
qed

lemma rune3_valid:
  fixes x y z :: nat
  assumes "0xE0 \<le> x" and "x \<le> 0xEF" and "secondOK x y"
  shows "validRune ((x mod 16) * 4096 + (y mod 64) * 64 + z mod 64)"
proof -
  have q: "x mod 16 = x - 0xE0"
    using mod_window [of 16 14 x] assms(1,2) by simp
  have u: "x = 0xED \<Longrightarrow> y mod 64 < 32"
  proof -
    assume "x = 0xED"
    then have "0x80 \<le> y \<and> y \<le> 0x9F"
      using assms(3) by (simp add: secondOK_def)
    then have r: "128 \<le> y" "y < 192"
      by simp_all
    then have m: "y mod 64 = y - 128"
      using mod_window [of 64 2 y] by simp
    have "y - 128 < 32"
      using \<open>0x80 \<le> y \<and> y \<le> 0x9F\<close> by arith
    then show ?thesis
      unfolding m .
  qed
  show ?thesis
  proof (rule rune3_range)
    show "x mod 16 < 16" "y mod 64 < 64" "z mod 64 < 64" by simp_all
    show "y mod 64 < 32" if "x mod 16 = 13"
      using that q assms(1) u by simp
  qed
qed

lemma rune4_valid:
  fixes x y z w :: nat
  assumes "0xF0 \<le> x" and "x \<le> 0xF4" and "secondOK x y"
  shows "validRune ((x mod 8) * 262144 + (y mod 64) * 4096 + (z mod 64) * 64 + w mod 64)"
proof -
  have q: "x mod 8 = x - 0xF0"
    using mod_window [of 8 30 x] assms(1,2) by simp
  have u0: "x = 0xF0 \<Longrightarrow> 16 \<le> y mod 64"
  proof -
    assume "x = 0xF0"
    then have "0x90 \<le> y \<and> y \<le> 0xBF"
      using assms(3) by (simp add: secondOK_def)
    then have r: "128 \<le> y" "y < 192"
      by simp_all
    then have m: "y mod 64 = y - 128"
      using mod_window [of 64 2 y] by simp
    have "16 \<le> y - 128"
      using \<open>0x90 \<le> y \<and> y \<le> 0xBF\<close> by arith
    then show ?thesis
      unfolding m .
  qed
  have u4: "x = 0xF4 \<Longrightarrow> y mod 64 < 16"
  proof -
    assume "x = 0xF4"
    then have "0x80 \<le> y \<and> y \<le> 0x8F"
      using assms(3) by (simp add: secondOK_def)
    then have r: "128 \<le> y" "y < 192"
      by simp_all
    then have m: "y mod 64 = y - 128"
      using mod_window [of 64 2 y] by simp
    have "y - 128 < 16"
      using \<open>0x80 \<le> y \<and> y \<le> 0x8F\<close> by arith
    then show ?thesis
      unfolding m .
  qed
  show ?thesis
  proof (rule rune4_range)
    show "x mod 8 < 5" using q assms(2) by simp
    show "y mod 64 < 64" "z mod 64 < 64" "w mod 64 < 64" by simp_all
    show "16 \<le> y mod 64" if "x mod 8 = 0"
      using that q assms(1) u0 by simp
    show "y mod 64 < 16" if "x mod 8 = 4"
      using that q assms(1) u4 by simp
  qed
qed

lemma decode_valid:
  assumes "0 < seqLen s"
  shows "validRune (runeValue (take (seqLen s) s))"
proof -
  from assms obtain b0 rest where s: "s = b0 # rest" and n: "seqLen s = leadLen (byte b0)"
    and l: "leadLen (byte b0) - 1 \<le> length rest"
    and t: "tailOK b0 (take (leadLen (byte b0) - 1) rest)"
    by (rule seq_parts)
  have pos: "0 < leadLen (byte b0)"
    using assms n by simp
  then have tk: "take (seqLen s) s = b0 # take (leadLen (byte b0) - 1) rest"
    unfolding n by (simp add: s take_Cons')
  from pos show ?thesis
  proof (cases rule: leadLen_cases)
    case 1
    then show ?thesis unfolding tk by (simp add: validRune_def)
  next
    case 2
    obtain b1 r1 where r: "rest = b1 # r1"
      using l 2 by (cases rest) auto
    have "byte b0 mod 32 < 32" "byte b1 mod 64 < 64"
      by simp_all
    then have "(byte b0 mod 32) * 64 + byte b1 mod 64 < 55296"
      by simp
    then show ?thesis unfolding tk r using 2 by (simp add: validRune_def)
  next
    case 3
    obtain b1 r1 where r: "rest = b1 # r1"
      using l 3 by (cases rest) auto
    obtain b2 r2 where r1: "r1 = b2 # r2"
      using l 3 r by (cases r1) auto
    have "secondOK (byte b0) (byte b1)"
      using t unfolding r r1 3 by (simp add: tailOK_def)
    then show ?thesis
      unfolding tk r r1 using 3 rune3_valid [of "byte b0" "byte b1" "byte b2"] by simp
  next
    case 4
    obtain b1 r1 where r: "rest = b1 # r1"
      using l 4 by (cases rest) auto
    obtain b2 r2 where r1: "r1 = b2 # r2"
      using l 4 r by (cases r1) auto
    obtain b3 r3 where r2: "r2 = b3 # r3"
      using l 4 r r1 by (cases r2) auto
    have "secondOK (byte b0) (byte b1)"
      using t unfolding r r1 r2 4 by (simp add: tailOK_def)
    then show ?thesis
      unfolding tk r r1 r2
      using 4 rune4_valid [of "byte b0" "byte b1" "byte b2" "byte b3"] by simp
  qed
qed

lemma DecodeRuneInString_valid: "validRune (fst (DecodeRuneInString s))"
  by (simp add: DecodeRuneInString_def decode_valid) (simp add: RuneError_def validRune_def)

lemma DecodeRuneInString_width: "s \<noteq> [] \<Longrightarrow> 0 < snd (DecodeRuneInString s)"
  by (simp add: DecodeRuneInString_def)

lemma runes_valid: "list_all validRune (runes s)"
proof (induction "length s" arbitrary: s rule: less_induct)
  case less
  show ?case
  proof (cases "s = []")
    case True
    then show ?thesis by (subst runes.simps) simp
  next
    case False
    then have "length (drop (snd (DecodeRuneInString s)) s) < length s"
      using DecodeRuneInString_width [of s] by simp
    then have "list_all validRune (runes (drop (snd (DecodeRuneInString s)) s))"
      by (rule less.hyps)
    then show ?thesis
      using False by (subst runes.simps) (simp add: DecodeRuneInString_valid)
  qed
qed

lemma appendRunes_valid:
  "ValidString result \<Longrightarrow> ValidString (appendRunes maxBytes result rs)"
proof (induction rs arbitrary: result)
  case Nil
  then show ?case by simp
next
  case (Cons r rs)
  have "ValidString (result @ encodeRune r)"
    using Cons.prems by (simp add: ValidString_append ValidString_encodeRune)
  then show ?case using Cons by simp
qed

lemma appendRunes_length:
  "length result \<le> maxBytes \<Longrightarrow> list_all validRune rs
     \<Longrightarrow> length (appendRunes maxBytes result rs) \<le> maxBytes"
proof (induction rs arbitrary: result)
  case Nil
  then show ?case by simp
next
  case (Cons r rs)
  have e: "RuneLen r = int (length (encodeRune r))"
    using Cons.prems by (simp add: length_encodeRune)
  show ?case
  proof (cases "int (length result) + RuneLen r > int maxBytes")
    case True
    then show ?thesis using Cons.prems by simp
  next
    case False
    then have "length (result @ encodeRune r) \<le> maxBytes"
      unfolding e by simp
    then have "length (appendRunes maxBytes (result @ encodeRune r) rs) \<le> maxBytes"
      using Cons.prems by (intro Cons.IH) simp_all
    then show ?thesis using False by simp
  qed
qed

section \<open>Provider selection: properties\<close>

text \<open>
  C7. \<open>DetectProvider\<close> is a total function of the configuration alone. A set
  Vertex-disable flag gives GOOGLE_AI whatever the other fields hold; otherwise a
  non-empty project identifier gives VERTEX_AI; otherwise GOOGLE_AI; a nil
  configuration gives GOOGLE_AI. The result is always one of the two tags, and
  the two tags differ.
\<close>

theorem DetectProvider_rule:
  "(VertexDisabled c \<longrightarrow> DetectProvider (Some c) = ''GOOGLE_AI'')
   \<and> (\<not> VertexDisabled c \<and> ProjectID c \<noteq> '''' \<longrightarrow> DetectProvider (Some c) = ''VERTEX_AI'')
   \<and> (\<not> VertexDisabled c \<and> ProjectID c = '''' \<longrightarrow> DetectProvider (Some c) = ''GOOGLE_AI'')
   \<and> DetectProvider None = ''GOOGLE_AI''
   \<and> DetectProvider cfg \<in> {ProviderGoogleAI, ProviderVertexAI}
   \<and> ProviderGoogleAI \<noteq> ProviderVertexAI"
  by (simp add: DetectProvider_def ProviderGoogleAI_def ProviderVertexAI_def split: option.split)

theorem DetectProvider_rule_witness:
  "VertexDisabled \<lparr>GoogleAPIKey = ''k'', ProjectID = ''proj-1'', Location = ''us'',
      ReveniumAPIKey = ''hak_1'', ReveniumBaseURL = '''', VertexDisabled = True,
      Debug = False, CapturePrompts = False\<rparr>
   \<and> DetectProvider (Some \<lparr>GoogleAPIKey = ''k'', ProjectID = ''proj-1'', Location = ''us'',
      ReveniumAPIKey = ''hak_1'', ReveniumBaseURL = '''', VertexDisabled = True,
      Debug = False, CapturePrompts = False\<rparr>) = ''GOOGLE_AI''
   \<and> \<not> VertexDisabled \<lparr>GoogleAPIKey = '''', ProjectID = ''proj-1'', Location = ''us'',
      ReveniumAPIKey = ''hak_1'', ReveniumBaseURL = '''', VertexDisabled = False,
      Debug = False, CapturePrompts = False\<rparr>
   \<and> DetectProvider (Some \<lparr>GoogleAPIKey = '''', ProjectID = ''proj-1'', Location = ''us'',
      ReveniumAPIKey = ''hak_1'', ReveniumBaseURL = '''', VertexDisabled = False,
      Debug = False, CapturePrompts = False\<rparr>) = ''VERTEX_AI''
   \<and> DetectProvider (Some \<lparr>GoogleAPIKey = ''k'', ProjectID = '''', Location = '''',
      ReveniumAPIKey = ''hak_1'', ReveniumBaseURL = '''', VertexDisabled = False,
      Debug = False, CapturePrompts = False\<rparr>) = ''GOOGLE_AI''"
  using DetectProvider_rule [of "\<lparr>GoogleAPIKey = ''k'', ProjectID = ''proj-1'', Location = ''us'',
      ReveniumAPIKey = ''hak_1'', ReveniumBaseURL = '''', VertexDisabled = True,
      Debug = False, CapturePrompts = False\<rparr>" None]
    DetectProvider_rule [of "\<lparr>GoogleAPIKey = '''', ProjectID = ''proj-1'', Location = ''us'',
      ReveniumAPIKey = ''hak_1'', ReveniumBaseURL = '''', VertexDisabled = False,
      Debug = False, CapturePrompts = False\<rparr>" None]
    DetectProvider_rule [of "\<lparr>GoogleAPIKey = ''k'', ProjectID = '''', Location = '''',
      ReveniumAPIKey = ''hak_1'', ReveniumBaseURL = '''', VertexDisabled = False,
      Debug = False, CapturePrompts = False\<rparr>" None]
  by simp

section \<open>Stop-reason mapping: properties\<close>

lemma byte_upperASCII:
  "byte (upperASCII c) = (if 97 \<le> byte c \<and> byte c \<le> 122 then byte c - 32 else byte c)"
  using byte_lt [of c] by (auto simp add: upperASCII_def byte_char_of)

lemma byte_lowerASCII:
  "byte (lowerASCII c) = (if 65 \<le> byte c \<and> byte c \<le> 90 then byte c + 32 else byte c)"
  by (simp add: lowerASCII_def byte_char_of)

lemma upper_consts:
  "map upperASCII ''STOP'' = ''STOP''"
  "map upperASCII ''MAX_TOKENS'' = ''MAX_TOKENS''"
  "map upperASCII ''SAFETY'' = ''SAFETY''"
  "map upperASCII ''RECITATION'' = ''RECITATION''"
  "map upperASCII ''BLOCKLIST'' = ''BLOCKLIST''"
  "map upperASCII ''PROHIBITED_CONTENT'' = ''PROHIBITED_CONTENT''"
  "map upperASCII ''SPII'' = ''SPII''"
  "map upperASCII ''MODEL_ARMOR'' = ''MODEL_ARMOR''"
  "map upperASCII ''IMAGE_SAFETY'' = ''IMAGE_SAFETY''"
  "map upperASCII ''IMAGE_PROHIBITED_CONTENT'' = ''IMAGE_PROHIBITED_CONTENT''"
  "map upperASCII ''IMAGE_RECITATION'' = ''IMAGE_RECITATION''"
  "map upperASCII ''MALFORMED_FUNCTION_CALL'' = ''MALFORMED_FUNCTION_CALL''"
  "map upperASCII ''UNEXPECTED_TOOL_CALL'' = ''UNEXPECTED_TOOL_CALL''"
  "map upperASCII ''NO_IMAGE'' = ''NO_IMAGE''"
  "map upperASCII ''CANCELLED'' = ''CANCELLED''"
  "map upperASCII ''CANCELED'' = ''CANCELED''"
  "map upperASCII ''FINISH_REASON_UNSPECIFIED'' = ''FINISH_REASON_UNSPECIFIED''"
  "map upperASCII ''OTHER'' = ''OTHER''"
  "map upperASCII ''IMAGE_OTHER'' = ''IMAGE_OTHER''"
  by (simp_all add: upperASCII_def byte_def)

lemma ascii_consts:
  "isASCII ''STOP''"
  "isASCII ''MAX_TOKENS''"
  "isASCII ''SAFETY''"
  "isASCII ''RECITATION''"
  "isASCII ''BLOCKLIST''"
  "isASCII ''PROHIBITED_CONTENT''"
  "isASCII ''SPII''"
  "isASCII ''MODEL_ARMOR''"
  "isASCII ''IMAGE_SAFETY''"
  "isASCII ''IMAGE_PROHIBITED_CONTENT''"
  "isASCII ''IMAGE_RECITATION''"
  "isASCII ''MALFORMED_FUNCTION_CALL''"
  "isASCII ''UNEXPECTED_TOOL_CALL''"
  "isASCII ''NO_IMAGE''"
  "isASCII ''CANCELLED''"
  "isASCII ''CANCELED''"
  "isASCII ''FINISH_REASON_UNSPECIFIED''"
  "isASCII ''OTHER''"
  "isASCII ''IMAGE_OTHER''"
  by (simp_all add: isASCII_def byte_def)

lemma runes_Nil: "runes [] = []"
  by (subst runes.simps) simp

lemma runes_ASCII_Cons:
  assumes "byte c < 0x80"
  shows "runes (c # s) = byte c # runes s"
proof -
  have "seqLen (c # s) = 1"
    using assms by (simp add: leadLen_def tailOK_def)
  then have "DecodeRuneInString (c # s) = (byte c, 1)"
    by (simp add: DecodeRuneInString_def)
  then show ?thesis
    by (subst runes.simps) simp
qed

lemma runes_ASCII: "isASCII s \<Longrightarrow> runes s = map byte s"
  by (induction s) (simp_all add: runes_Nil runes_ASCII_Cons isASCII_def)

lemma encodeRune_ASCII: "r < 0x80 \<Longrightarrow> encodeRune r = [char_of r]"
  by (simp add: encodeRune_def)

lemma encodeRune_head:
  assumes "0x80 \<le> r"
  shows "\<exists>c cs. encodeRune r = c # cs \<and> 0x80 \<le> byte c"
proof -
  consider "r < 0x800" | "0x800 \<le> r" "\<not> validRune r"
    | "0x800 \<le> r" "validRune r" "r < 0x10000" | "validRune r" "0x10000 \<le> r"
    by arith
  then show ?thesis
  proof cases
    case 1
    have "0xC0 + r div 64 < 256"
      using 1 by arith
    then have "0x80 \<le> byte (char_of (0xC0 + r div 64))"
      by (simp add: byte_char_of)
    then show ?thesis using 1 assms by (simp add: encodeRune_def)
  next
    case 2
    have "0x80 \<le> byte (char_of (0xEF::nat))"
      by (simp add: byte_char_of)
    then show ?thesis using 2 assms by (simp add: encodeRune_def)
  next
    case 3
    have "0xE0 + r div 4096 < 256"
      using 3 by arith
    then have "0x80 \<le> byte (char_of (0xE0 + r div 4096))"
      by (simp add: byte_char_of)
    then show ?thesis using 3 assms by (simp add: encodeRune_def)
  next
    case 4
    then have "r \<le> 0x10FFFF"
      by (simp add: validRune_def)
    then have "0xF0 + r div 262144 < 256"
      by arith
    then have "0x80 \<le> byte (char_of (0xF0 + r div 262144))"
      by (simp add: byte_char_of)
    then show ?thesis using 4 assms by (simp add: encodeRune_def)
  qed
qed

lemma concat_encodeRune_ASCII:
  "isASCII k \<Longrightarrow> concat (map encodeRune rs) = k \<longleftrightarrow> rs = map byte k"
proof (induction rs arbitrary: k)
  case Nil
  then show ?case by auto
next
  case (Cons r rs)
  show ?case
  proof (cases "r < 0x80")
    case True
    show ?thesis
    proof (cases k)
      case Nil
      then show ?thesis using True by (simp add: encodeRune_ASCII)
    next
      case (Cons c k')
      have "isASCII k'" using Cons.prems Cons by (simp add: isASCII_def)
      then have "concat (map encodeRune rs) = k' \<longleftrightarrow> rs = map byte k'"
        by (rule Cons.IH)
      moreover have "char_of r = c \<longleftrightarrow> r = byte c"
        using True byte_char_of [of r] by (auto simp: byte_def)
      ultimately show ?thesis using True Cons by (simp add: encodeRune_ASCII)
    qed
  next
    case False
    then obtain c cs where e: "encodeRune r = c # cs" and c: "0x80 \<le> byte c"
      using encodeRune_head [of r] by auto
    have "concat (map encodeRune (r # rs)) \<noteq> k"
    proof
      assume "concat (map encodeRune (r # rs)) = k"
      then have "k = c # cs @ concat (map encodeRune rs)"
        using e by simp
      then have "byte c < 0x80"
        using Cons.prems by (simp add: isASCII_def)
      then show False using c by simp
    qed
    moreover have "r # rs \<noteq> map byte k"
    proof
      assume "r # rs = map byte k"
      then obtain c' k' where "k = c' # k'" and "r = byte c'"
        by (cases k) auto
      then have "r < 0x80"
        using Cons.prems by (simp add: isASCII_def)
      then show False using False by simp
    qed
    ultimately show ?thesis by simp
  qed
qed

lemma unicodeToUpper_ASCII:
  assumes "byte a < 0x80"
  shows "encodeRune (unicodeToUpper T (byte a)) = [upperASCII a]"
proof (cases "0x61 \<le> byte a \<and> byte a \<le> 0x7A")
  case True
  then have "byte a - 32 < 0x80"
    by arith
  then have "encodeRune (byte a - 32) = [char_of (byte a - 32)]"
    by (rule encodeRune_ASCII)
  then show ?thesis
    using True assms by (simp add: unicodeToUpper_def upperASCII_def)
next
  case False
  then have "unicodeToUpper T (byte a) = byte a" and "upperASCII a = a"
    using assms by (auto simp: unicodeToUpper_def upperASCII_def)
  then show ?thesis
    using assms by (simp add: encodeRune_ASCII byte_def)
qed

lemma ToUpper_runes:
  "ToUpper T s = concat (map encodeRune (map (unicodeToUpper T) (runes s)))"
proof (cases "isASCII s")
  case True
  then have "concat (map encodeRune (map (unicodeToUpper T) (map byte s))) = map upperASCII s"
    by (induction s) (simp_all add: isASCII_def unicodeToUpper_ASCII)
  then show ?thesis
    using True by (simp add: ToUpper_def runes_ASCII)
next
  case False
  then show ?thesis
    by (simp add: ToUpper_def comp_def)
qed

lemma map_eq_iff_list_all2:
  "map f xs = map g ys \<longleftrightarrow> list_all2 (\<lambda>x y. f x = g y) xs ys"
proof (induction xs arbitrary: ys)
  case Nil
  then show ?case by auto
next
  case (Cons x xs)
  then show ?case by (cases ys) auto
qed

lemma list_all2_cong_right:
  assumes "list_all P ys" and "\<And>x y. P y \<Longrightarrow> A x y = B x y"
  shows "list_all2 A xs ys = list_all2 B xs ys"
  using assms(1)
proof (induction xs arbitrary: ys)
  case Nil
  then show ?case by simp
next
  case (Cons x xs)
  then show ?case by (cases ys) (auto simp: assms(2))
qed

lemma upper_letter:
  assumes T: "upperCaseTable T" and a: "byte c < 0x80" and u: "upperASCII c = c"
  shows "unicodeToUpper T r = byte c \<longleftrightarrow> spec_same_letter r c"
proof -
  have nl: "\<not> (97 \<le> byte c \<and> byte c \<le> 122)"
  proof
    assume "97 \<le> byte c \<and> byte c \<le> 122"
    then have "byte (upperASCII c) = byte c - 32" and "32 \<le> byte c"
      by (simp_all add: byte_upperASCII)
    then show False unfolding u by simp
  qed
  have S: "c = CHR ''S'' \<longleftrightarrow> byte c = 0x53" and I: "c = CHR ''I'' \<longleftrightarrow> byte c = 0x49"
    using byte_inj [of c "CHR ''S''"] byte_inj [of c "CHR ''I''"] by (simp_all add: byte_def)
  consider "r \<le> 0x7F" | "r = 0x131" | "r = 0x17F" | "0x80 \<le> r" "r \<noteq> 0x131" "r \<noteq> 0x17F"
    by arith
  then show ?thesis
  proof cases
    case 1
    then show ?thesis
      using a nl unfolding unicodeToUpper_def spec_same_letter_def byte_lowerASCII S I
      by auto
  next
    case 2
    then show ?thesis
      using a nl unfolding unicodeToUpper_def spec_same_letter_def byte_lowerASCII S I
      by auto
  next
    case 3
    then show ?thesis
      using a nl unfolding unicodeToUpper_def spec_same_letter_def byte_lowerASCII S I
      by auto
  next
    case 4
    then have "0x80 \<le> T r"
      using T by (simp add: upperCaseTable_def)
    then show ?thesis
      using 4 a nl unfolding unicodeToUpper_def spec_same_letter_def byte_lowerASCII S I
      by auto
  qed
qed

lemma ToUpper_entry:
  assumes T: "upperCaseTable T" and a: "isASCII k" and u: "map upperASCII k = k"
  shows "ToUpper T s = k \<longleftrightarrow> spec_is_entry s k"
proof -
  have p: "list_all (\<lambda>c. byte c < 0x80 \<and> upperASCII c = c) k"
    using a u by (induction k) (simp_all add: isASCII_def)
  have "ToUpper T s = k \<longleftrightarrow> map (unicodeToUpper T) (runes s) = map byte k"
    unfolding ToUpper_runes using a by (rule concat_encodeRune_ASCII)
  also have "\<dots> \<longleftrightarrow> list_all2 (\<lambda>r c. unicodeToUpper T r = byte c) (runes s) k"
    by (rule map_eq_iff_list_all2)
  also have "\<dots> \<longleftrightarrow> list_all2 spec_same_letter (runes s) k"
    using p by (rule list_all2_cong_right) (simp add: upper_letter [OF T])
  finally show ?thesis
    by (simp add: spec_is_entry_def)
qed

lemmas ToUpper_consts = ToUpper_entry [OF _ ascii_consts(1) upper_consts(1)]
  ToUpper_entry [OF _ ascii_consts(2) upper_consts(2)]
  ToUpper_entry [OF _ ascii_consts(3) upper_consts(3)]
  ToUpper_entry [OF _ ascii_consts(4) upper_consts(4)]
  ToUpper_entry [OF _ ascii_consts(5) upper_consts(5)]
  ToUpper_entry [OF _ ascii_consts(6) upper_consts(6)]
  ToUpper_entry [OF _ ascii_consts(7) upper_consts(7)]
  ToUpper_entry [OF _ ascii_consts(8) upper_consts(8)]
  ToUpper_entry [OF _ ascii_consts(9) upper_consts(9)]
  ToUpper_entry [OF _ ascii_consts(10) upper_consts(10)]
  ToUpper_entry [OF _ ascii_consts(11) upper_consts(11)]
  ToUpper_entry [OF _ ascii_consts(12) upper_consts(12)]
  ToUpper_entry [OF _ ascii_consts(13) upper_consts(13)]
  ToUpper_entry [OF _ ascii_consts(14) upper_consts(14)]
  ToUpper_entry [OF _ ascii_consts(15) upper_consts(15)]
  ToUpper_entry [OF _ ascii_consts(16) upper_consts(16)]
  ToUpper_entry [OF _ ascii_consts(17) upper_consts(17)]
  ToUpper_entry [OF _ ascii_consts(18) upper_consts(18)]
  ToUpper_entry [OF _ ascii_consts(19) upper_consts(19)]

lemma spec_is_entry_Nil: "spec_is_entry [] k \<longleftrightarrow> k = []"
  by (simp add: spec_is_entry_def runes_Nil)
lemma entry_upper:
  assumes T: "upperCaseTable T" and k: "k \<in> set spec_entries"
  shows "spec_is_entry fr k \<longleftrightarrow> ToUpper T fr = k"
  using k
  unfolding spec_entries_def spec_error_entries_def spec_cancel_entries_def
    spec_unspecified_entries_def
  by (auto simp: ToUpper_consts [OF T])

lemma entry_nonempty:
  assumes "k \<in> set spec_entries" and "spec_is_entry fr k"
  shows "fr \<noteq> []"
proof
  assume "fr = []"
  then have "k = []" using assms(2) by (simp add: spec_is_entry_Nil)
  then show False
    using assms(1)
    by (simp add: spec_entries_def spec_error_entries_def spec_cancel_entries_def
        spec_unspecified_entries_def)
qed

lemma Map_empty: "MapGoogleFinishReason T '''' d = d"
  by (simp add: MapGoogleFinishReason_def)

lemma Map_row_stop:
  assumes "upperCaseTable T" and "spec_is_entry fr ''STOP''"
  shows "MapGoogleFinishReason T fr d = StopReasonEnd"
proof -
  have k: "''STOP'' \<in> set spec_entries"
    by (simp add: spec_entries_def)
  have "fr \<noteq> []" and "ToUpper T fr = ''STOP''"
    using entry_nonempty [OF k assms(2)] entry_upper [OF assms(1) k] assms(2) by simp_all
  then show ?thesis
    by (simp add: MapGoogleFinishReason_def)
qed

lemma Map_row_max_tokens:
  assumes "upperCaseTable T" and "spec_is_entry fr ''MAX_TOKENS''"
  shows "MapGoogleFinishReason T fr d = StopReasonTokenLimit"
proof -
  have k: "''MAX_TOKENS'' \<in> set spec_entries"
    by (simp add: spec_entries_def)
  have "fr \<noteq> []" and "ToUpper T fr = ''MAX_TOKENS''"
    using entry_nonempty [OF k assms(2)] entry_upper [OF assms(1) k] assms(2) by simp_all
  then show ?thesis
    by (simp add: MapGoogleFinishReason_def)
qed

lemma Map_row_error:
  assumes "upperCaseTable T" and "list_ex (spec_is_entry fr) spec_error_entries"
  shows "MapGoogleFinishReason T fr d = StopReasonError"
proof -
  obtain k where e: "k \<in> set spec_error_entries" and m: "spec_is_entry fr k"
    using assms(2) by (auto simp: list_ex_iff)
  have k: "k \<in> set spec_entries"
    using e by (simp add: spec_entries_def)
  have "fr \<noteq> []" and "ToUpper T fr = k"
    using entry_nonempty [OF k m] entry_upper [OF assms(1) k] m by simp_all
  then show ?thesis
    using e unfolding spec_error_entries_def MapGoogleFinishReason_def Let_def by auto
qed

lemma Map_row_cancelled:
  assumes "upperCaseTable T" and "list_ex (spec_is_entry fr) spec_cancel_entries"
  shows "MapGoogleFinishReason T fr d = StopReasonCancelled"
proof -
  obtain k where e: "k \<in> set spec_cancel_entries" and m: "spec_is_entry fr k"
    using assms(2) by (auto simp: list_ex_iff)
  have k: "k \<in> set spec_entries"
    using e by (simp add: spec_entries_def)
  have "fr \<noteq> []" and "ToUpper T fr = k"
    using entry_nonempty [OF k m] entry_upper [OF assms(1) k] m by simp_all
  then show ?thesis
    using e unfolding spec_cancel_entries_def MapGoogleFinishReason_def Let_def by auto
qed

lemma Map_row_unspecified:
  assumes "upperCaseTable T" and "list_ex (spec_is_entry fr) spec_unspecified_entries"
  shows "MapGoogleFinishReason T fr d = d"
proof -
  obtain k where e: "k \<in> set spec_unspecified_entries" and m: "spec_is_entry fr k"
    using assms(2) by (auto simp: list_ex_iff)
  have k: "k \<in> set spec_entries"
    using e by (simp add: spec_entries_def)
  have "fr \<noteq> []" and "ToUpper T fr = k"
    using entry_nonempty [OF k m] entry_upper [OF assms(1) k] m by simp_all
  then show ?thesis
    using e unfolding spec_unspecified_entries_def MapGoogleFinishReason_def Let_def by auto
qed

lemma Map_row_unrecognized:
  assumes "upperCaseTable T" and "\<not> list_ex (spec_is_entry fr) spec_entries"
  shows "MapGoogleFinishReason T fr d = d"
proof (cases "fr = []")
  case True
  then show ?thesis by (simp add: Map_empty)
next
  case False
  define n where "n = ToUpper T fr"
  have "n \<notin> set spec_entries"
  proof
    assume k: "n \<in> set spec_entries"
    then have "spec_is_entry fr n"
      using entry_upper [OF assms(1) k, of fr] by (simp add: n_def)
    then show False
      using assms(2) k by (auto simp: list_ex_iff)
  qed
  then show ?thesis
    using False
    unfolding MapGoogleFinishReason_def Let_def n_def [symmetric] spec_entries_def
      spec_error_entries_def spec_cancel_entries_def spec_unspecified_entries_def
    by simp
qed

lemma Map_closed:
  "MapGoogleFinishReason T fr d
     \<in> set [StopReasonEnd, StopReasonTokenLimit, StopReasonError, StopReasonCancelled, d]"
  by (simp add: MapGoogleFinishReason_def Let_def)

lemma Map_standard:
  assumes "d \<in> set spec_standard_values"
  shows "MapGoogleFinishReason T fr d \<in> set spec_standard_values"
proof -
  have "StopReasonEnd \<in> set spec_standard_values"
    "StopReasonTokenLimit \<in> set spec_standard_values"
    "StopReasonError \<in> set spec_standard_values"
    "StopReasonCancelled \<in> set spec_standard_values"
    by (simp_all add: spec_standard_values_def)
  then show ?thesis
    using assms Map_closed [of T fr d] by auto
qed

lemma runes_long_s: "runes (CHR 0xC5 # CHR 0xBF # s) = 0x17F # runes s"
proof -
  have "seqLen (CHR 0xC5 # CHR 0xBF # s) = 2"
    by (simp add: leadLen_def tailOK_def secondOK_def byte_def)
  then have "DecodeRuneInString (CHR 0xC5 # CHR 0xBF # s) = (0x17F, 2)"
    by (simp add: DecodeRuneInString_def byte_def)
  then show ?thesis
    by (subst runes.simps) simp
qed

lemma upper_table_example_ok: "upperCaseTable upper_table_example"
  by (simp add: upperCaseTable_def upper_table_example_def)

lemma entry_examples:
  "spec_is_entry ''stop'' ''STOP''"
  "spec_is_entry [CHR 0xC5, CHR 0xBF, CHR ''t'', CHR ''o'', CHR ''p''] ''STOP''"
  "spec_is_entry ''Max_Tokens'' ''MAX_TOKENS''"
  "spec_is_entry ''safety'' ''SAFETY''"
  "spec_is_entry ''Canceled'' ''CANCELED''"
  "spec_is_entry ''other'' ''OTHER''"
  by (simp_all add: spec_is_entry_def runes_long_s runes_ASCII_Cons runes_Nil
      spec_same_letter_def lowerASCII_def byte_def char_of_eq_iff)

lemma unknown_example:
  "\<not> list_ex (spec_is_entry ''UNKNOWN_FUTURE_REASON'') spec_entries"
  by (simp add: spec_entries_def spec_error_entries_def spec_cancel_entries_def
      spec_unspecified_entries_def spec_is_entry_def runes_ASCII_Cons runes_Nil
      spec_same_letter_def lowerASCII_def byte_def char_of_eq_iff)

text \<open>
  C2. For every finish reason \<open>fr\<close> and every default \<open>d\<close>, and for every table \<open>T\<close>
  of Go's remaining case ranges that sends a non-ASCII rune other than U+0131 and
  U+017F to a non-ASCII rune: a finish reason that is the entry STOP of the mapping
  table, each letter in upper or lower case (the long s and the dotless i count as
  lower-case \<^verbatim>\<open>s\<close> and \<^verbatim>\<open>i\<close>, as \<^verbatim>\<open>strings.ToUpper\<close> has it), is mapped to END;
  MAX\_TOKENS to TOKEN\_LIMIT; each of the nine safety, policy and content-filter
  reasons and the three tool-call reasons to ERROR; CANCELLED and CANCELED to
  CANCELLED; FINISH\_REASON\_UNSPECIFIED, OTHER and IMAGE\_OTHER to the default; the
  empty string to the default; and a finish reason that is no entry of the table, be
  it ASCII, other Unicode text or bytes that are not UTF-8, to the default. The
  function is total and its result is END, TOKEN\_LIMIT, ERROR, CANCELLED or the
  default \<open>d\<close> itself, whatever string \<open>d\<close> is: it is one of the eight standardized
  values whenever the default is one of them.
\<close>

theorem MapGoogleFinishReason_table:
  assumes "upperCaseTable T"
  shows "(spec_is_entry fr ''STOP'' \<longrightarrow> MapGoogleFinishReason T fr d = StopReasonEnd)
   \<and> (spec_is_entry fr ''MAX_TOKENS'' \<longrightarrow> MapGoogleFinishReason T fr d = StopReasonTokenLimit)
   \<and> (list_ex (spec_is_entry fr) spec_error_entries
        \<longrightarrow> MapGoogleFinishReason T fr d = StopReasonError)
   \<and> (list_ex (spec_is_entry fr) spec_cancel_entries
        \<longrightarrow> MapGoogleFinishReason T fr d = StopReasonCancelled)
   \<and> (list_ex (spec_is_entry fr) spec_unspecified_entries
        \<longrightarrow> MapGoogleFinishReason T fr d = d)
   \<and> MapGoogleFinishReason T '''' d = d
   \<and> (\<not> list_ex (spec_is_entry fr) spec_entries \<longrightarrow> MapGoogleFinishReason T fr d = d)
   \<and> MapGoogleFinishReason T fr d
        \<in> set [StopReasonEnd, StopReasonTokenLimit, StopReasonError, StopReasonCancelled, d]
   \<and> (d \<in> set spec_standard_values
        \<longrightarrow> MapGoogleFinishReason T fr d \<in> set spec_standard_values)"
  apply (intro conjI impI)
          apply (erule Map_row_stop [OF assms])
         apply (erule Map_row_max_tokens [OF assms])
        apply (erule Map_row_error [OF assms])
       apply (erule Map_row_cancelled [OF assms])
      apply (erule Map_row_unspecified [OF assms])
     apply (rule Map_empty)
    apply (erule Map_row_unrecognized [OF assms])
   apply (rule Map_closed)
  apply (erule Map_standard)
  done

theorem MapGoogleFinishReason_table_witness:
  "upperCaseTable upper_table_example
   \<and> spec_is_entry ''stop'' ''STOP''
   \<and> MapGoogleFinishReason upper_table_example ''stop'' StopReasonTimeout = StopReasonEnd
   \<and> spec_is_entry [CHR 0xC5, CHR 0xBF, CHR ''t'', CHR ''o'', CHR ''p''] ''STOP''
   \<and> MapGoogleFinishReason upper_table_example
        [CHR 0xC5, CHR 0xBF, CHR ''t'', CHR ''o'', CHR ''p''] StopReasonTimeout = StopReasonEnd
   \<and> spec_is_entry ''Max_Tokens'' ''MAX_TOKENS''
   \<and> MapGoogleFinishReason upper_table_example ''Max_Tokens'' StopReasonEnd
       = StopReasonTokenLimit
   \<and> list_ex (spec_is_entry ''safety'') spec_error_entries
   \<and> MapGoogleFinishReason upper_table_example ''safety'' StopReasonEnd = StopReasonError
   \<and> list_ex (spec_is_entry ''Canceled'') spec_cancel_entries
   \<and> MapGoogleFinishReason upper_table_example ''Canceled'' StopReasonEnd = StopReasonCancelled
   \<and> list_ex (spec_is_entry ''other'') spec_unspecified_entries
   \<and> MapGoogleFinishReason upper_table_example ''other'' StopReasonTokenLimit
       = StopReasonTokenLimit
   \<and> \<not> list_ex (spec_is_entry ''UNKNOWN_FUTURE_REASON'') spec_entries
   \<and> MapGoogleFinishReason upper_table_example ''UNKNOWN_FUTURE_REASON'' StopReasonTimeout
       = StopReasonTimeout
   \<and> StopReasonTimeout \<in> set spec_standard_values
   \<and> MapGoogleFinishReason upper_table_example ''UNKNOWN_FUTURE_REASON'' StopReasonTimeout
       \<in> set spec_standard_values"
proof -
  note T = MapGoogleFinishReason_table [OF upper_table_example_ok]
  have h3: "list_ex (spec_is_entry ''safety'') spec_error_entries"
    using entry_examples(4) by (simp add: spec_error_entries_def)
  have h4: "list_ex (spec_is_entry ''Canceled'') spec_cancel_entries"
    using entry_examples(5) by (simp add: spec_cancel_entries_def)
  have h5: "list_ex (spec_is_entry ''other'') spec_unspecified_entries"
    using entry_examples(6) by (simp add: spec_unspecified_entries_def)
  have h7: "StopReasonTimeout \<in> set spec_standard_values"
    by (simp add: spec_standard_values_def)
  have c1: "MapGoogleFinishReason upper_table_example ''stop'' StopReasonTimeout = StopReasonEnd"
    using entry_examples(1) T [of "''stop''" StopReasonTimeout] by blast
  have c2: "MapGoogleFinishReason upper_table_example
        [CHR 0xC5, CHR 0xBF, CHR ''t'', CHR ''o'', CHR ''p''] StopReasonTimeout = StopReasonEnd"
    using entry_examples(2)
      T [of "[CHR 0xC5, CHR 0xBF, CHR ''t'', CHR ''o'', CHR ''p'']" StopReasonTimeout]
    by blast
  have c3: "MapGoogleFinishReason upper_table_example ''Max_Tokens'' StopReasonEnd
       = StopReasonTokenLimit"
    using entry_examples(3) T [of "''Max_Tokens''" StopReasonEnd] by blast
  have c4: "MapGoogleFinishReason upper_table_example ''safety'' StopReasonEnd = StopReasonError"
    using h3 T [of "''safety''" StopReasonEnd] by blast
  have c5: "MapGoogleFinishReason upper_table_example ''Canceled'' StopReasonEnd
       = StopReasonCancelled"
    using h4 T [of "''Canceled''" StopReasonEnd] by blast
  have c6: "MapGoogleFinishReason upper_table_example ''other'' StopReasonTokenLimit
       = StopReasonTokenLimit"
    using h5 T [of "''other''" StopReasonTokenLimit] by blast
  have c7: "MapGoogleFinishReason upper_table_example ''UNKNOWN_FUTURE_REASON''
        StopReasonTimeout = StopReasonTimeout"
    using unknown_example T [of "''UNKNOWN_FUTURE_REASON''" StopReasonTimeout] by blast
  have c8: "MapGoogleFinishReason upper_table_example ''UNKNOWN_FUTURE_REASON''
        StopReasonTimeout \<in> set spec_standard_values"
    using h7 T [of "''UNKNOWN_FUTURE_REASON''" StopReasonTimeout] by blast
  show ?thesis
    using upper_table_example_ok entry_examples(1,2,3) h3 h4 h5 unknown_example h7
      c1 c2 c3 c4 c5 c6 c7 c8
    by blast
qed

theorem MapGoogleFinishReason_default_counterexample:
  "MapGoogleFinishReason upper_table_example '''' ''BOGUS'' = ''BOGUS''
   \<and> ''BOGUS'' \<notin> set spec_standard_values"
  by (simp add: MapGoogleFinishReason_def spec_standard_values_def StopReasonEnd_def
      StopReasonEndSequence_def StopReasonTimeout_def StopReasonTokenLimit_def
      StopReasonCostLimit_def StopReasonCompletionLimit_def StopReasonError_def
      StopReasonCancelled_def)

section \<open>The payload builder: properties\<close>

lemma foldl_copyMetadataKey_other:
  "k \<notin> set ks \<Longrightarrow> foldl (copyMetadataKey md) p ks k = p k"
  by (induction ks arbitrary: p) (auto simp: copyMetadataKey_def split: option.splits)

lemma foldl_copyMetadataKey_hit:
  "k \<in> set ks \<Longrightarrow> md k = Some v \<Longrightarrow> foldl (copyMetadataKey md) p ks k = Some v"
proof (induction ks arbitrary: p)
  case Nil
  then show ?case by simp
next
  case (Cons x ks)
  show ?case
  proof (cases "k \<in> set ks")
    case True
    then show ?thesis using Cons by simp
  next
    case False
    then have x: "x = k" using Cons.prems by simp
    have "foldl (copyMetadataKey md) (copyMetadataKey md p k) ks k = copyMetadataKey md p k k"
      using False by (rule foldl_copyMetadataKey_other)
    also have "\<dots> = Some v"
      using Cons.prems(2) by (simp add: copyMetadataKey_def)
    finally show ?thesis using x by simp
  qed
qed

lemma foldl_copyMetadataKey_miss:
  "md k = None \<Longrightarrow> foldl (copyMetadataKey md) p ks k = p k"
  by (induction ks arbitrary: p) (auto simp: copyMetadataKey_def split: option.splits)

text \<open>
  The fields of the payload that neither the error reason, nor the temperature, nor
  the caller's metadata can touch.
\<close>

lemma payload_fixed_field:
  assumes "k \<notin> set metadataKeys" and "k \<noteq> ''errorReason''" and "k \<noteq> ''temperature''"
  shows "buildGoogleMeteringPayloadWithTiming rt resp model metadata isStreamed requestTime
           completionStartTime responseTime provider config err now1 now2 k =
         initialPayload rt resp model isStreamed requestTime completionStartTime responseTime
           provider now1 now2 k"
  using assms
  by (simp add: buildGoogleMeteringPayloadWithTiming_def Let_def foldl_copyMetadataKey_other
      split: option.split)

lemma payload_stopReason:
  "buildGoogleMeteringPayloadWithTiming rt resp model metadata isStreamed requestTime
     completionStartTime responseTime provider config err now1 now2 ''stopReason'' =
   Some (VString
     (MapGoogleFinishReason (upperCaseRanges rt) (ExtractFinishReason resp) StopReasonEnd))"
  by (subst payload_fixed_field) (simp_all add: metadataKeys_def initialPayload_def Let_def)

lemma payload_totalTokenCount:
  "buildGoogleMeteringPayloadWithTiming rt resp model metadata isStreamed requestTime
     completionStartTime responseTime provider config err now1 now2 ''totalTokenCount'' =
   Some (VInt64
     (case resp of
        None \<Rightarrow> 0
      | Some r \<Rightarrow>
          (case UsageMetadata r of
             None \<Rightarrow> 0
           | Some u \<Rightarrow>
               if TotalTokenCount u = 0
               then sint (PromptTokenCount u + CandidatesTokenCount u)
               else sint (TotalTokenCount u))))"
  by (subst payload_fixed_field)
     (simp_all add: metadataKeys_def initialPayload_def Let_def signed_eq_0_iff
        split: option.split)

lemma payload_inputTokenCount:
  "buildGoogleMeteringPayloadWithTiming rt resp model metadata isStreamed requestTime
     completionStartTime responseTime provider config err now1 now2 ''inputTokenCount'' =
   Some (VInt64
     (case resp of
        None \<Rightarrow> 0
      | Some r \<Rightarrow> (case UsageMetadata r of None \<Rightarrow> 0 | Some u \<Rightarrow> sint (PromptTokenCount u))))"
  by (subst payload_fixed_field)
     (simp_all add: metadataKeys_def initialPayload_def Let_def split: option.split)

lemma payload_outputTokenCount:
  "buildGoogleMeteringPayloadWithTiming rt resp model metadata isStreamed requestTime
     completionStartTime responseTime provider config err now1 now2 ''outputTokenCount'' =
   Some (VInt64
     (case resp of
        None \<Rightarrow> 0
      | Some r \<Rightarrow> (case UsageMetadata r of None \<Rightarrow> 0 | Some u \<Rightarrow> sint (CandidatesTokenCount u))))"
  by (subst payload_fixed_field)
     (simp_all add: metadataKeys_def initialPayload_def Let_def split: option.split)

lemma payload_cacheReadTokenCount:
  "buildGoogleMeteringPayloadWithTiming rt resp model metadata isStreamed requestTime
     completionStartTime responseTime provider config err now1 now2 ''cacheReadTokenCount'' =
   Some (VInt64
     (case resp of
        None \<Rightarrow> 0
      | Some r \<Rightarrow>
          (case UsageMetadata r of None \<Rightarrow> 0 | Some u \<Rightarrow> sint (CachedContentTokenCount u))))"
  by (subst payload_fixed_field)
     (simp_all add: metadataKeys_def initialPayload_def Let_def split: option.split)

lemma payload_reasoningTokenCount:
  "buildGoogleMeteringPayloadWithTiming rt resp model metadata isStreamed requestTime
     completionStartTime responseTime provider config err now1 now2 ''reasoningTokenCount'' =
   Some (VInt64
     (case resp of
        None \<Rightarrow> 0
      | Some r \<Rightarrow> (case UsageMetadata r of None \<Rightarrow> 0 | Some u \<Rightarrow> sint (ThoughtsTokenCount u))))"
  by (subst payload_fixed_field)
     (simp_all add: metadataKeys_def initialPayload_def Let_def split: option.split)

lemma payload_cacheCreationTokenCount:
  "buildGoogleMeteringPayloadWithTiming rt resp model metadata isStreamed requestTime
     completionStartTime responseTime provider config err now1 now2 ''cacheCreationTokenCount'' =
   Some (VInt64 0)"
  by (subst payload_fixed_field) (simp_all add: metadataKeys_def initialPayload_def Let_def)

lemma payload_no_attributes:
  "buildGoogleMeteringPayloadWithTiming rt resp model metadata isStreamed requestTime
     completionStartTime responseTime provider config err now1 now2 ''attributes'' = None"
  by (subst payload_fixed_field) (simp_all add: metadataKeys_def initialPayload_def Let_def)

lemma sint32_add_exact:
  fixes a b :: "32 word"
  assumes "- 2147483648 \<le> sint a + sint b" and "sint a + sint b < 2147483648"
  shows "sint (a + b) = sint a + sint b"
  using assms by (simp add: sint_word_add signed_take_bit_int_eq_self)

text \<open>
  When the usage block reports a total of zero, the builder adds the prompt and
  candidate counts as \<^verbatim>\<open>int32\<close> values and converts the sum afterwards. The sum is
  the arithmetic one whenever it fits in an \<^verbatim>\<open>int32\<close>.
\<close>

lemma totalTokenCount_sum_when_it_fits:
  assumes "UsageMetadata r = Some u" and "TotalTokenCount u = 0"
    and "- 2147483648 \<le> sint (PromptTokenCount u) + sint (CandidatesTokenCount u)"
    and "sint (PromptTokenCount u) + sint (CandidatesTokenCount u) < 2147483648"
  shows "buildGoogleMeteringPayloadWithTiming rt (Some r) model metadata isStreamed requestTime
           completionStartTime responseTime provider config err now1 now2 ''totalTokenCount''
         = Some (VInt64 (sint (PromptTokenCount u) + sint (CandidatesTokenCount u)))"
  using assms by (simp add: payload_totalTokenCount sint32_add_exact)

text \<open>
  When the response or its usage block is absent, every token count of the payload
  is zero.
\<close>

lemma token_counts_zero_without_usage:
  assumes "resp = None \<or> (\<exists>r. resp = Some r \<and> UsageMetadata r = None)"
  shows "list_all
           (\<lambda>k. buildGoogleMeteringPayloadWithTiming rt resp model metadata isStreamed
                  requestTime completionStartTime responseTime provider config err now1 now2 k
                = Some (VInt64 0))
           [''inputTokenCount'', ''outputTokenCount'', ''totalTokenCount'',
            ''cacheReadTokenCount'', ''cacheCreationTokenCount'', ''reasoningTokenCount'']"
  using assms
  by (auto simp: payload_totalTokenCount payload_inputTokenCount payload_outputTokenCount
      payload_cacheReadTokenCount payload_cacheCreationTokenCount payload_reasoningTokenCount)

text \<open>
  C6, where the code departs from the claim. With a prompt count of 2147483647, a
  candidate count of 1 and a total of 0, the \<^verbatim>\<open>int32\<close> addition wraps around before
  the conversion to \<^verbatim>\<open>int64\<close>: the payload's \<^verbatim>\<open>totalTokenCount\<close> is -2147483648,
  next to an \<^verbatim>\<open>inputTokenCount\<close> of 2147483647 and an \<^verbatim>\<open>outputTokenCount\<close> of 1.
\<close>

theorem totalTokenCount_wraps_at_int32:
  "buildGoogleMeteringPayloadWithTiming rt
     (Some \<lparr>Candidates = [],
            UsageMetadata = Some \<lparr>PromptTokenCount = 2147483647, CandidatesTokenCount = 1,
              TotalTokenCount = 0, CachedContentTokenCount = 0, ThoughtsTokenCount = 0\<rparr>\<rparr>)
     model metadata isStreamed requestTime completionStartTime responseTime provider config err
     now1 now2 ''totalTokenCount'' = Some (VInt64 (- 2147483648))
   \<and> buildGoogleMeteringPayloadWithTiming rt
     (Some \<lparr>Candidates = [],
            UsageMetadata = Some \<lparr>PromptTokenCount = 2147483647, CandidatesTokenCount = 1,
              TotalTokenCount = 0, CachedContentTokenCount = 0, ThoughtsTokenCount = 0\<rparr>\<rparr>)
     model metadata isStreamed requestTime completionStartTime responseTime provider config err
     now1 now2 ''inputTokenCount'' = Some (VInt64 2147483647)
   \<and> buildGoogleMeteringPayloadWithTiming rt
     (Some \<lparr>Candidates = [],
            UsageMetadata = Some \<lparr>PromptTokenCount = 2147483647, CandidatesTokenCount = 1,
              TotalTokenCount = 0, CachedContentTokenCount = 0, ThoughtsTokenCount = 0\<rparr>\<rparr>)
     model metadata isStreamed requestTime completionStartTime responseTime provider config err
     now1 now2 ''outputTokenCount'' = Some (VInt64 1)"
  by (simp add: payload_totalTokenCount payload_inputTokenCount payload_outputTokenCount)

text \<open>
  The transaction id of a payload: the caller's metadata value under
  \<^verbatim>\<open>transactionId\<close> when there is one, the generated id otherwise.
\<close>

lemma payload_transactionId:
  "buildGoogleMeteringPayloadWithTiming rt resp model metadata isStreamed requestTime
     completionStartTime responseTime provider config err now1 now2 ''transactionId'' =
   (case (case metadata of None \<Rightarrow> None | Some md \<Rightarrow> md ''transactionId'') of
      Some v \<Rightarrow> Some v
    | None \<Rightarrow> Some (VString (generateRequestID now1 now2)))"
proof -
  have init: "initialPayload rt resp model isStreamed requestTime completionStartTime
      responseTime provider now1 now2 ''transactionId''
      = Some (VString (generateRequestID now1 now2))"
    by (simp add: initialPayload_def Let_def)
  have mem: "''transactionId'' \<in> set metadataKeys"
    by (simp add: metadataKeys_def)
  show ?thesis
  proof (cases metadata)
    case None
    then show ?thesis
      by (simp add: buildGoogleMeteringPayloadWithTiming_def Let_def init split: option.split)
  next
    case (Some md)
    show ?thesis
    proof (cases "md ''transactionId''")
      case None
      then show ?thesis
        using Some
        by (simp add: buildGoogleMeteringPayloadWithTiming_def Let_def init
            foldl_copyMetadataKey_miss split: option.split)
    next
      case (Some v)
      then show ?thesis
        using \<open>metadata = Some md\<close>
          foldl_copyMetadataKey_hit [of "''transactionId''" metadataKeys md v, OF mem Some]
        by (simp add: buildGoogleMeteringPayloadWithTiming_def Let_def)
    qed
  qed
qed

lemma showNat_digit: "n < 10 \<Longrightarrow> showNat n = [char_of (48 + n)]"
  by (subst showNat.simps) simp

lemma generateRequestID_examples:
  "generateRequestID 1 2 = ''1-2''" "generateRequestID 3 4 = ''3-4''"
  by (simp_all add: generateRequestID_def showInt_def truncRem_def showNat_digit
      char_of_eq_iff)

section \<open>The streaming wrapper: properties\<close>

lemma spec_accumulated_usage_append_Chunk:
  "spec_accumulated_usage (xs @ [Chunk r]) =
     (case UsageMetadata r of Some u \<Rightarrow> Some u | None \<Rightarrow> spec_accumulated_usage xs)"
  by (induction xs rule: spec_accumulated_usage.induct) (auto split: option.splits)

lemma receiveChunk_lastUsage:
  "st_lastUsage (receiveChunk clock st r) =
     (case UsageMetadata r of Some u \<Rightarrow> Some u | None \<Rightarrow> st_lastUsage st)"
  by (simp add: receiveChunk_def Let_def split: option.split)

lemma streamLoop_spec:
  "streamLoop clock yield rq st seen items = (fwd, tasks) \<Longrightarrow>
     fwd = seen @ spec_forwarded yield seen items
     \<and> length tasks \<le> 1
     \<and> (tasks \<noteq> [] \<longleftrightarrow>
          (spec_forwarded yield seen items \<noteq> []
             \<and> isStreamErr (last (spec_forwarded yield seen items)))
          \<or> (case spec_accumulated_usage (spec_forwarded yield seen items) of
                Some u \<Rightarrow> Some u | None \<Rightarrow> st_lastUsage st) \<noteq> None)
     \<and> (\<forall>t \<in> set tasks.
           task_resp t = map_option usageOnlyResponse
             (case spec_accumulated_usage (spec_forwarded yield seen items) of
                Some u \<Rightarrow> Some u | None \<Rightarrow> st_lastUsage st)
           \<and> task_isStreamed t
           \<and> (task_err t \<noteq> None \<longleftrightarrow>
                spec_forwarded yield seen items \<noteq> []
                  \<and> isStreamErr (last (spec_forwarded yield seen items))))"
proof (induction items arbitrary: st seen fwd tasks)
  case Nil
  then show ?case by (auto simp: Let_def split: option.splits)
next
  case (Cons item rest)
  show ?case
  proof (cases item)
    case (StreamErr e)
    then show ?thesis
      using Cons.prems by (auto simp: Let_def split: option.splits)
  next
    case (Chunk r)
    let ?seen' = "seen @ [Chunk r]"
    let ?st' = "receiveChunk clock st r"
    note last3 = receiveChunk_lastUsage [of clock st r]
    show ?thesis
    proof (cases "yield ?seen'")
      case False
      then show ?thesis
        using Cons.prems Chunk last3 by (auto simp: Let_def split: option.splits)
    next
      case True
      then have rec: "streamLoop clock yield rq ?st' ?seen' rest = (fwd, tasks)"
        using Cons.prems Chunk by (simp add: Let_def)
      have IH: "fwd = ?seen' @ spec_forwarded yield ?seen' rest
         \<and> length tasks \<le> 1
         \<and> (tasks \<noteq> [] \<longleftrightarrow>
              (spec_forwarded yield ?seen' rest \<noteq> []
                 \<and> isStreamErr (last (spec_forwarded yield ?seen' rest)))
              \<or> (case spec_accumulated_usage (spec_forwarded yield ?seen' rest) of
                    Some u \<Rightarrow> Some u | None \<Rightarrow> st_lastUsage ?st') \<noteq> None)
         \<and> (\<forall>t \<in> set tasks.
               task_resp t = map_option usageOnlyResponse
                 (case spec_accumulated_usage (spec_forwarded yield ?seen' rest) of
                    Some u \<Rightarrow> Some u | None \<Rightarrow> st_lastUsage ?st')
               \<and> task_isStreamed t
               \<and> (task_err t \<noteq> None \<longleftrightarrow>
                    spec_forwarded yield ?seen' rest \<noteq> []
                      \<and> isStreamErr (last (spec_forwarded yield ?seen' rest))))"
        by (rule Cons.IH [OF rec])
      have new: "spec_forwarded yield seen (item # rest)
          = Chunk r # spec_forwarded yield ?seen' rest"
        using Chunk True by simp
      have acc: "(case spec_accumulated_usage (spec_forwarded yield seen (item # rest)) of
                    Some u \<Rightarrow> Some u | None \<Rightarrow> st_lastUsage st)
          = (case spec_accumulated_usage (spec_forwarded yield ?seen' rest) of
                    Some u \<Rightarrow> Some u | None \<Rightarrow> st_lastUsage ?st')"
        unfolding new last3 by (simp split: option.split)
      have failed: "(spec_forwarded yield seen (item # rest) \<noteq> []
             \<and> isStreamErr (last (spec_forwarded yield seen (item # rest))))
          \<longleftrightarrow> (spec_forwarded yield ?seen' rest \<noteq> []
                 \<and> isStreamErr (last (spec_forwarded yield ?seen' rest)))"
        unfolding new by simp
      show ?thesis
        unfolding acc failed using IH new by simp
    qed
  qed
qed

lemma streamLoop_task_resp:
  "t \<in> set (snd (streamLoop clock yield rq st seen items)) \<Longrightarrow>
     task_resp t = None \<or> (\<exists>u. task_resp t = Some (usageOnlyResponse u))"
proof (induction items arbitrary: st seen)
  case Nil
  then show ?case by (auto simp: Let_def split: option.splits)
next
  case (Cons item rest)
  then show ?case
    by (cases item) (auto simp: Let_def split: option.splits if_splits)
qed

lemma GenerateContentStream_spec:
  defines "init \<equiv> \<lparr>st_lastUsage = None, st_completionStartTime = zeroTime,
            st_firstTokenReceived = False, st_chunkCount = 0, st_clockReads = 1\<rparr>"
  assumes "GenerateContentStream clock yield stream = (fwd, tasks)"
  shows "fwd = spec_forwarded yield [] stream
     \<and> length tasks \<le> 1
     \<and> (tasks \<noteq> [] \<longleftrightarrow>
          (fwd \<noteq> [] \<and> isStreamErr (last fwd)) \<or> spec_accumulated_usage fwd \<noteq> None)
     \<and> (\<forall>t \<in> set tasks.
           task_resp t = map_option usageOnlyResponse (spec_accumulated_usage fwd)
           \<and> task_isStreamed t
           \<and> (task_err t \<noteq> None \<longleftrightarrow> fwd \<noteq> [] \<and> isStreamErr (last fwd)))"
proof -
  have run: "streamLoop clock yield (clock 0) init [] stream = (fwd, tasks)"
    using assms(2) by (simp add: GenerateContentStream_def Let_def init_def)
  have none: "st_lastUsage init = None" by (simp add: init_def)
  have keep: "(case x of Some u \<Rightarrow> Some u | None \<Rightarrow> None) = x"
    for x :: "GenerateContentResponseUsageMetadata option"
    by (cases x) simp_all
  have fwd: "fwd = spec_forwarded yield [] stream"
    using streamLoop_spec [OF run] by simp
  show ?thesis
    using streamLoop_spec [OF run] unfolding none keep fwd [symmetric] append_Nil by blast
qed

text \<open>
  C1, as the code has it. Whichever way the stream ends, the wrapper starts at most
  one metering task. It starts exactly one when the stream ended with an error, or
  when a chunk handed to the consumer carried usage metadata; otherwise (normal
  exhaustion or early stop with no usage metadata seen) it starts none. The task
  carries the latest usage metadata among the chunks handed to the consumer (and no
  response at all when an error arrives before any usage metadata), is marked as
  streamed, and carries an error exactly when the stream ended with one. The
  consumer is handed the stream's items unchanged, up to the first error or the
  first chunk at which it stops.
\<close>

theorem GenerateContentStream_dispatch:
  "length (snd (GenerateContentStream clock yield stream)) \<le> 1
   \<and> (length (snd (GenerateContentStream clock yield stream)) = 1 \<longleftrightarrow>
        (fst (GenerateContentStream clock yield stream) \<noteq> []
           \<and> isStreamErr (last (fst (GenerateContentStream clock yield stream))))
        \<or> spec_accumulated_usage (fst (GenerateContentStream clock yield stream)) \<noteq> None)
   \<and> (\<forall>t \<in> set (snd (GenerateContentStream clock yield stream)).
         task_resp t = map_option usageOnlyResponse
           (spec_accumulated_usage (fst (GenerateContentStream clock yield stream)))
         \<and> task_isStreamed t
         \<and> (task_err t \<noteq> None \<longleftrightarrow>
              fst (GenerateContentStream clock yield stream) \<noteq> []
                \<and> isStreamErr (last (fst (GenerateContentStream clock yield stream)))))
   \<and> fst (GenerateContentStream clock yield stream) = spec_forwarded yield [] stream"
proof -
  obtain fwd tasks where run: "GenerateContentStream clock yield stream = (fwd, tasks)"
    by (cases "GenerateContentStream clock yield stream") auto
  have len: "length tasks = 1 \<longleftrightarrow> tasks \<noteq> []" if "length tasks \<le> 1"
    using that by (cases tasks) auto
  show ?thesis
    using GenerateContentStream_spec [OF run] len unfolding run fst_conv snd_conv by blast
qed

lemma eval_stop_after_first_with_usage:
  "GenerateContentStream example_clock stop_after_first
      [Chunk chunk_with_usage, Chunk chunk_without_usage, Chunk chunk_without_usage,
       Chunk chunk_without_usage, Chunk chunk_without_usage]
   = ([Chunk chunk_with_usage],
      [\<lparr>task_resp = Some (usageOnlyResponse example_usage), task_isStreamed = True,
        task_requestTime = 0, task_completionStartTime = 1000000,
        task_responseTime = 2000000, task_err = None\<rparr>])"
  by (simp add: GenerateContentStream_def receiveChunk_def Let_def example_clock_def
      stop_after_first_def chunk_with_usage_def)

theorem GenerateContentStream_dispatch_witness:
  "\<lparr>task_resp = Some (usageOnlyResponse example_usage), task_isStreamed = True,
     task_requestTime = 0, task_completionStartTime = 1000000,
     task_responseTime = 2000000, task_err = None\<rparr>
     \<in> set (snd (GenerateContentStream example_clock stop_after_first
          [Chunk chunk_with_usage, Chunk chunk_without_usage, Chunk chunk_without_usage,
           Chunk chunk_without_usage, Chunk chunk_without_usage]))
   \<and> length (snd (GenerateContentStream example_clock stop_after_first
          [Chunk chunk_with_usage, Chunk chunk_without_usage, Chunk chunk_without_usage,
           Chunk chunk_without_usage, Chunk chunk_without_usage])) = 1
   \<and> spec_accumulated_usage (fst (GenerateContentStream example_clock stop_after_first
          [Chunk chunk_with_usage, Chunk chunk_without_usage, Chunk chunk_without_usage,
           Chunk chunk_without_usage, Chunk chunk_without_usage])) = Some example_usage"
proof -
  have acc: "spec_accumulated_usage [Chunk chunk_with_usage] = Some example_usage"
    by (simp add: chunk_with_usage_def)
  show ?thesis
    using GenerateContentStream_dispatch [of example_clock stop_after_first
        "[Chunk chunk_with_usage, Chunk chunk_without_usage, Chunk chunk_without_usage,
          Chunk chunk_without_usage, Chunk chunk_without_usage]"]
    unfolding eval_stop_after_first_with_usage fst_conv snd_conv acc by simp
qed

text \<open>
  The claim as stated fails: when the first of five chunks carries no usage metadata
  (only the last one does) and the consumer stops after the first chunk, no
  metering task is started; and a stream that is consumed to its end without any
  chunk carrying usage metadata starts none either.
\<close>

theorem GenerateContentStream_dispatch_counterexample:
  "length (snd (GenerateContentStream example_clock stop_after_first
      [Chunk chunk_without_usage, Chunk chunk_without_usage, Chunk chunk_without_usage,
       Chunk chunk_without_usage, Chunk chunk_with_usage])) = 0
   \<and> length (snd (GenerateContentStream example_clock consume_all
      [Chunk chunk_without_usage, Chunk chunk_without_usage])) = 0"
  by (simp add: GenerateContentStream_def receiveChunk_def Let_def example_clock_def
      stop_after_first_def consume_all_def chunk_without_usage_def)

text \<open>
  C10. Every metering task a streaming call starts, with or without a stream error,
  yields a payload whose \<^verbatim>\<open>stopReason\<close> is END, whatever finish reasons the chunks
  carried and whatever the caller's metadata holds: the task's response is absent or
  rebuilt from the usage metadata alone, with no candidates, so the finish reason
  extracted is the empty string and the mapper returns the default.
\<close>

theorem stream_payload_stopReason_is_END:
  "\<forall>task \<in> set (snd (GenerateContentStream clock yield stream)).
     ExtractFinishReason (task_resp task) = ''''
     \<and> taskPayload rt model metadata provider config now1 now2 task ''stopReason''
         = Some (VString ''END'')"
proof
  fix task
  assume "task \<in> set (snd (GenerateContentStream clock yield stream))"
  then have "task_resp task = None \<or> (\<exists>u. task_resp task = Some (usageOnlyResponse u))"
    unfolding GenerateContentStream_def Let_def by (rule streamLoop_task_resp)
  then have fr: "ExtractFinishReason (task_resp task) = ''''"
    by (auto simp: ExtractFinishReason_def usageOnlyResponse_def)
  show "ExtractFinishReason (task_resp task) = ''''
     \<and> taskPayload rt model metadata provider config now1 now2 task ''stopReason''
         = Some (VString ''END'')"
    by (simp add: taskPayload_def payload_stopReason fr Map_empty StopReasonEnd_def)
qed

lemma eval_consume_all_max_tokens:
  "GenerateContentStream example_clock consume_all [Chunk chunk_with_usage]
   = ([Chunk chunk_with_usage],
      [\<lparr>task_resp = Some (usageOnlyResponse example_usage), task_isStreamed = True,
        task_requestTime = 0, task_completionStartTime = 1000000,
        task_responseTime = 2000000, task_err = None\<rparr>])"
  by (simp add: GenerateContentStream_def receiveChunk_def Let_def example_clock_def
      consume_all_def chunk_with_usage_def)

theorem stream_payload_stopReason_is_END_witness:
  "ExtractFinishReason (Some chunk_with_usage) = ''MAX_TOKENS''
   \<and> snd (GenerateContentStream example_clock consume_all [Chunk chunk_with_usage])
       = [\<lparr>task_resp = Some (usageOnlyResponse example_usage), task_isStreamed = True,
           task_requestTime = 0, task_completionStartTime = 1000000,
           task_responseTime = 2000000, task_err = None\<rparr>]
   \<and> taskPayload example_runtime ''gemini-2.0-flash'' None ''GOOGLE_AI'' None 1 2
        \<lparr>task_resp = Some (usageOnlyResponse example_usage), task_isStreamed = True,
         task_requestTime = 0, task_completionStartTime = 1000000,
         task_responseTime = 2000000, task_err = None\<rparr> ''stopReason''
       = Some (VString ''END'')"
proof -
  have fr: "ExtractFinishReason (Some chunk_with_usage) = ''MAX_TOKENS''"
    by (simp add: ExtractFinishReason_def chunk_with_usage_def)
  show ?thesis
    using fr stream_payload_stopReason_is_END [of example_clock consume_all
        "[Chunk chunk_with_usage]" example_runtime "''gemini-2.0-flash''" None "''GOOGLE_AI''"
        None 1 2]
    unfolding eval_consume_all_max_tokens snd_conv by simp
qed

section \<open>Delivery with retry: properties\<close>

lemma showInt_3: "showInt (int maxRetries) = ''3''"
  by (simp add: maxRetries_def showInt_def showNat.simps [of 3] char_of_eq_iff)

lemma retryLoop_done:
  "\<not> attempt < maxRetries \<Longrightarrow>
     retryLoop rt tr config payload attempt backoff lastErr events =
       (Some (NewMeteringError ''metering failed after retries''
          (Some (Errorf ''retries: 3, last error: %w'' lastErr))), events)"
  by (subst retryLoop.simps) (simp add: showInt_3)

lemma retryLoop_step:
  "attempt < maxRetries \<Longrightarrow>
     retryLoop rt tr config payload attempt backoff lastErr events =
       (let slept = (if attempt > 0 then events @ [Sleep backoff] else events);
            events' = slept @ [attemptEvent rt tr config payload attempt]
        in (case attemptError rt tr config payload attempt of
              None \<Rightarrow> (None, events')
            | Some e \<Rightarrow>
                if IsValidationError e then (Some e, events')
                else retryLoop rt tr config payload (attempt + 1)
                       (if attempt > 0 then backoff * 2 else backoff) (Some e) events'))"
  by (subst retryLoop.simps)
     (simp add: Let_def attemptError_def attemptEvent_def case_prod_beta)

text \<open>The three iterations of the loop, unrolled.\<close>

lemma sendMeteringWithRetry_unrolled:
  "sendMeteringWithRetry rt tr config payload =
     (case attemptError rt tr config payload 0 of
        None \<Rightarrow> (None, [attemptEvent rt tr config payload 0])
      | Some e0 \<Rightarrow>
          if IsValidationError e0 then (Some e0, [attemptEvent rt tr config payload 0])
          else
            (case attemptError rt tr config payload 1 of
               None \<Rightarrow> (None, [attemptEvent rt tr config payload 0, Sleep 100,
                               attemptEvent rt tr config payload 1])
             | Some e1 \<Rightarrow>
                 if IsValidationError e1
                 then (Some e1, [attemptEvent rt tr config payload 0, Sleep 100,
                                 attemptEvent rt tr config payload 1])
                 else
                   (case attemptError rt tr config payload 2 of
                      None \<Rightarrow> (None, [attemptEvent rt tr config payload 0, Sleep 100,
                                      attemptEvent rt tr config payload 1, Sleep 200,
                                      attemptEvent rt tr config payload 2])
                    | Some e2 \<Rightarrow>
                        if IsValidationError e2
                        then (Some e2, [attemptEvent rt tr config payload 0, Sleep 100,
                                        attemptEvent rt tr config payload 1, Sleep 200,
                                        attemptEvent rt tr config payload 2])
                        else (Some (NewMeteringError ''metering failed after retries''
                                 (Some (Errorf ''retries: 3, last error: %w'' (Some e2)))),
                              [attemptEvent rt tr config payload 0, Sleep 100,
                               attemptEvent rt tr config payload 1, Sleep 200,
                               attemptEvent rt tr config payload 2]))))"
proof -
  have s0: "retryLoop rt tr config payload 0 100 None [] =
      (case attemptError rt tr config payload 0 of
         None \<Rightarrow> (None, [attemptEvent rt tr config payload 0])
       | Some e \<Rightarrow>
           if IsValidationError e then (Some e, [attemptEvent rt tr config payload 0])
           else retryLoop rt tr config payload 1 100 (Some e)
                  [attemptEvent rt tr config payload 0])"
    by (subst retryLoop_step)
       (simp_all add: maxRetries_def Let_def numeral_2_eq_2 numeral_3_eq_3 split: option.split)
  have s1: "retryLoop rt tr config payload 1 100 lastErr [a0] =
      (case attemptError rt tr config payload 1 of
         None \<Rightarrow> (None, [a0, Sleep 100, attemptEvent rt tr config payload 1])
       | Some e \<Rightarrow>
           if IsValidationError e
           then (Some e, [a0, Sleep 100, attemptEvent rt tr config payload 1])
           else retryLoop rt tr config payload 2 200 (Some e)
                  [a0, Sleep 100, attemptEvent rt tr config payload 1])" for lastErr a0
    by (subst retryLoop_step)
       (simp_all add: maxRetries_def Let_def numeral_2_eq_2 numeral_3_eq_3 split: option.split)
  have s2: "retryLoop rt tr config payload 2 200 lastErr [a0, Sleep 100, a1] =
      (case attemptError rt tr config payload 2 of
         None \<Rightarrow> (None, [a0, Sleep 100, a1, Sleep 200, attemptEvent rt tr config payload 2])
       | Some e \<Rightarrow>
           if IsValidationError e
           then (Some e, [a0, Sleep 100, a1, Sleep 200, attemptEvent rt tr config payload 2])
           else retryLoop rt tr config payload 3 400 (Some e)
                  [a0, Sleep 100, a1, Sleep 200, attemptEvent rt tr config payload 2])"
    for lastErr a0 a1
    by (subst retryLoop_step)
       (simp_all add: maxRetries_def Let_def numeral_2_eq_2 numeral_3_eq_3 split: option.split)
  have s3: "retryLoop rt tr config payload 3 400 lastErr events =
      (Some (NewMeteringError ''metering failed after retries''
          (Some (Errorf ''retries: 3, last error: %w'' lastErr))), events)" for lastErr events
    by (rule retryLoop_done) (simp add: maxRetries_def)
  show ?thesis
    unfolding sendMeteringWithRetry_def initialBackoff_def s0 s1 s2 s3 ..
qed

lemma stopsRetry_cases:
  "stopsRetry x \<longleftrightarrow> x = None \<or> (\<exists>e. x = Some e \<and> IsValidationError e)"
  by (cases x) (simp_all add: stopsRetry_def)

text \<open>
  The loop in closed form: it ends at the first attempt that succeeds or fails with a
  validation error, and after the third attempt otherwise.
\<close>

lemma sendMeteringWithRetry_closed_form:
  "sendMeteringWithRetry rt tr config payload =
     (if stopsRetry (attemptError rt tr config payload 0)
      then (attemptError rt tr config payload 0, [attemptEvent rt tr config payload 0])
      else if stopsRetry (attemptError rt tr config payload 1)
      then (attemptError rt tr config payload 1,
            [attemptEvent rt tr config payload 0, Sleep 100,
             attemptEvent rt tr config payload 1])
      else if stopsRetry (attemptError rt tr config payload 2)
      then (attemptError rt tr config payload 2,
            [attemptEvent rt tr config payload 0, Sleep 100,
             attemptEvent rt tr config payload 1, Sleep 200,
             attemptEvent rt tr config payload 2])
      else (Some (NewMeteringError ''metering failed after retries''
               (Some (Errorf ''retries: 3, last error: %w''
                  (attemptError rt tr config payload 2)))),
            [attemptEvent rt tr config payload 0, Sleep 100,
             attemptEvent rt tr config payload 1, Sleep 200,
             attemptEvent rt tr config payload 2]))"
  unfolding sendMeteringWithRetry_unrolled
  by (simp add: stopsRetry_def split: option.split)

lemma attemptsMade_simps:
  "attemptsMade [attemptEvent rt tr config payload i] = Suc 0"
  "attemptsMade [attemptEvent rt tr config payload i, Sleep a,
                 attemptEvent rt tr config payload j] = Suc (Suc 0)"
  "attemptsMade [attemptEvent rt tr config payload i, Sleep a,
                 attemptEvent rt tr config payload j, Sleep b,
                 attemptEvent rt tr config payload l] = Suc (Suc (Suc 0))"
  by (simp_all add: attemptsMade_def attemptEvent_def)

lemma retry_attempts_made:
  "attemptsMade (snd (sendMeteringWithRetry rt tr config payload)) =
     (if stopsRetry (attemptError rt tr config payload 0) then 1
      else if stopsRetry (attemptError rt tr config payload 1) then 2
      else 3)"
  unfolding sendMeteringWithRetry_closed_form by (simp add: attemptsMade_simps)

lemma retry_error:
  "fst (sendMeteringWithRetry rt tr config payload) =
     (if stopsRetry (attemptError rt tr config payload 0)
      then attemptError rt tr config payload 0
      else if stopsRetry (attemptError rt tr config payload 1)
      then attemptError rt tr config payload 1
      else if stopsRetry (attemptError rt tr config payload 2)
      then attemptError rt tr config payload 2
      else Some (NewMeteringError ''metering failed after retries''
               (Some (Errorf ''retries: 3, last error: %w''
                  (attemptError rt tr config payload 2)))))"
  unfolding sendMeteringWithRetry_closed_form by simp

lemma retry_events:
  "snd (sendMeteringWithRetry rt tr config payload) =
     take (2 * attemptsMade (snd (sendMeteringWithRetry rt tr config payload)) - 1)
       [attemptEvent rt tr config payload 0, Sleep 100,
        attemptEvent rt tr config payload 1, Sleep 200,
        attemptEvent rt tr config payload 2]"
  unfolding retry_attempts_made unfolding sendMeteringWithRetry_closed_form by simp

lemma less_3_cases: "k < (3::nat) \<longleftrightarrow> k = 0 \<or> k = 1 \<or> k = 2"
  by auto

lemma retry_validation_stops:
  assumes "k < attemptsMade (snd (sendMeteringWithRetry rt tr config payload))"
    and "attemptError rt tr config payload k = Some e" and "IsValidationError e"
  shows "fst (sendMeteringWithRetry rt tr config payload) = Some e
     \<and> attemptsMade (snd (sendMeteringWithRetry rt tr config payload)) = k + 1"
proof -
  have stop: "stopsRetry (attemptError rt tr config payload k)"
    using assms(2,3) by (simp add: stopsRetry_def)
  have "k < 3" using assms(1) unfolding retry_attempts_made by (simp split: if_splits)
  then have "k = 0 \<or> k = 1 \<or> k = 2" by (simp add: less_3_cases)
  then consider "k = 0" | "k = 1" | "k = 2" by blast
  then show ?thesis
  proof cases
    case 1
    then show ?thesis using stop assms(2) unfolding retry_attempts_made retry_error by simp
  next
    case 2
    then show ?thesis
      using stop assms(1,2) unfolding retry_attempts_made retry_error
      by (simp split: if_splits)
  next
    case 3
    then show ?thesis
      using stop assms(1,2) unfolding retry_attempts_made retry_error
      by (simp split: if_splits)
  qed
qed

lemma retry_success_stops:
  assumes "k < attemptsMade (snd (sendMeteringWithRetry rt tr config payload))"
    and "attemptError rt tr config payload k = None"
  shows "fst (sendMeteringWithRetry rt tr config payload) = None
     \<and> attemptsMade (snd (sendMeteringWithRetry rt tr config payload)) = k + 1"
proof -
  have stop: "stopsRetry (attemptError rt tr config payload k)"
    using assms(2) by (simp add: stopsRetry_def)
  have "k < 3" using assms(1) unfolding retry_attempts_made by (simp split: if_splits)
  then have "k = 0 \<or> k = 1 \<or> k = 2" by (simp add: less_3_cases)
  then consider "k = 0" | "k = 1" | "k = 2" by blast
  then show ?thesis
  proof cases
    case 1
    then show ?thesis using stop assms(2) unfolding retry_attempts_made retry_error by simp
  next
    case 2
    then show ?thesis
      using stop assms(1,2) unfolding retry_attempts_made retry_error
      by (simp split: if_splits)
  next
    case 3
    then show ?thesis
      using stop assms(1,2) unfolding retry_attempts_made retry_error
      by (simp split: if_splits)
  qed
qed

lemma retry_transient_retried:
  assumes "k < attemptsMade (snd (sendMeteringWithRetry rt tr config payload))"
    and "attemptError rt tr config payload k = Some e" and "\<not> IsValidationError e"
    and "k < 2"
  shows "k + 1 < attemptsMade (snd (sendMeteringWithRetry rt tr config payload))"
proof -
  have go: "\<not> stopsRetry (attemptError rt tr config payload k)"
    using assms(2,3) by (simp add: stopsRetry_def)
  have "k = 0 \<or> k = 1" using assms(4) by auto
  then consider "k = 0" | "k = 1" by blast
  then show ?thesis
  proof cases
    case 1
    then show ?thesis using go unfolding retry_attempts_made by simp
  next
    case 2
    then show ?thesis using go assms(1) unfolding retry_attempts_made by (simp split: if_splits)
  qed
qed

lemma retry_exhausted:
  assumes "\<forall>k<3. \<exists>e. attemptError rt tr config payload k = Some e \<and> \<not> IsValidationError e"
  shows "attemptsMade (snd (sendMeteringWithRetry rt tr config payload)) = 3
     \<and> fst (sendMeteringWithRetry rt tr config payload) =
         Some (NewMeteringError ''metering failed after retries''
           (Some (Errorf ''retries: 3, last error: %w''
              (attemptError rt tr config payload 2))))"
proof -
  have "\<not> stopsRetry (attemptError rt tr config payload 0)"
    "\<not> stopsRetry (attemptError rt tr config payload 1)"
    "\<not> stopsRetry (attemptError rt tr config payload 2)"
    using assms [rule_format, of 0] assms [rule_format, of 1] assms [rule_format, of 2]
    by (auto simp: stopsRetry_cases)
  then show ?thesis
    unfolding retry_attempts_made retry_error by simp
qed

lemma sendMeteringRequest_classifies:
  assumes "snd (sendMeteringRequest rt tr k config payload) = Some req"
  shows "attemptError rt tr config payload k = spec_classify (clientDo tr k req)"
proof (cases config)
  case None
  then show ?thesis using assms by (simp add: sendMeteringRequest_def)
next
  case (Some cfg)
  show ?thesis
  proof (cases "ReveniumAPIKey cfg = ''''")
    case True
    then show ?thesis using assms Some by (simp add: sendMeteringRequest_def)
  next
    case key: False
    show ?thesis
    proof (cases "jsonMarshal tr payload")
      case (Inl err)
      then show ?thesis using assms Some key by (simp add: sendMeteringRequest_def)
    next
      case (Inr jsonData)
      show ?thesis
      proof (cases "httpNewRequest tr (ReveniumBaseURL cfg @ meteringEndpoint)")
        case (Some err)
        then show ?thesis
          using assms \<open>config = Some cfg\<close> key Inr by (simp add: sendMeteringRequest_def)
      next
        case None
        let ?req = "\<lparr>req_method = ''POST'', req_url = ReveniumBaseURL cfg @ meteringEndpoint,
                      req_headers =
                        [(''Content-Type'', ''application/json; charset=utf-8''),
                         (''x-api-key'', ReveniumAPIKey cfg),
                         (''User-Agent'', GetUserAgent rt)],
                      req_body = jsonData\<rparr>"
        have run: "sendMeteringRequest rt tr k config payload =
            (spec_classify (clientDo tr k ?req), Some ?req)"
          using \<open>config = Some cfg\<close> key Inr None
          by (cases "clientDo tr k ?req")
             (simp_all add: sendMeteringRequest_def spec_classify_def Let_def)
        then have "req = ?req" using assms by simp
        then show ?thesis using run by (simp add: attemptError_def)
      qed
    qed
  qed
qed

lemma spec_classify_4xx:
  "400 \<le> s \<Longrightarrow> s < 500 \<Longrightarrow>
     \<exists>e. spec_classify (HttpResponse s body) = Some e \<and> IsValidationError e"
  by (simp add: spec_classify_def NewValidationError_def)

lemma spec_classify_transient:
  "\<exists>e. spec_classify (TransportError cause) = Some e \<and> \<not> IsValidationError e"
  "500 \<le> s \<Longrightarrow> \<exists>e. spec_classify (HttpResponse s body) = Some e \<and> \<not> IsValidationError e"
  by (simp_all add: spec_classify_def NewNetworkError_def NewMeteringError_def)

lemma spec_classify_2xx:
  "200 \<le> s \<Longrightarrow> s < 300 \<Longrightarrow> spec_classify (HttpResponse s body) = None"
  by (simp add: spec_classify_def)

text \<open>
  C3. \<^verbatim>\<open>sendMeteringWithRetry\<close> makes between one and three attempts; what it does is
  an initial segment of: attempt, sleep 100 ms, attempt, sleep 200 ms, attempt, so
  there is no sleep before the first attempt. An attempt that fails with a validation
  error ends the loop at once with that error; a successful attempt ends it with no
  error; an attempt that fails otherwise is followed by another attempt as long as
  fewer than three were made; and when all three attempts fail without a validation
  error, the result is the metering error ``metering failed after retries'' wrapping
  the error of the third attempt. Whenever an attempt reaches the network, its error
  is the classification of the answer: a 4xx status gives a validation error, a
  transport failure a network error and a 5xx status a metering error, neither of
  them a validation error.
\<close>

theorem sendMeteringWithRetry_policy:
  "1 \<le> attemptsMade (snd (sendMeteringWithRetry rt tr config payload))
   \<and> attemptsMade (snd (sendMeteringWithRetry rt tr config payload)) \<le> 3
   \<and> snd (sendMeteringWithRetry rt tr config payload) =
       take (2 * attemptsMade (snd (sendMeteringWithRetry rt tr config payload)) - 1)
         [attemptEvent rt tr config payload 0, Sleep 100,
          attemptEvent rt tr config payload 1, Sleep 200,
          attemptEvent rt tr config payload 2]
   \<and> (\<forall>k e. k < attemptsMade (snd (sendMeteringWithRetry rt tr config payload))
          \<and> attemptError rt tr config payload k = Some e \<and> IsValidationError e
        \<longrightarrow> fst (sendMeteringWithRetry rt tr config payload) = Some e
            \<and> attemptsMade (snd (sendMeteringWithRetry rt tr config payload)) = k + 1)
   \<and> (\<forall>k. k < attemptsMade (snd (sendMeteringWithRetry rt tr config payload))
          \<and> attemptError rt tr config payload k = None
        \<longrightarrow> fst (sendMeteringWithRetry rt tr config payload) = None
            \<and> attemptsMade (snd (sendMeteringWithRetry rt tr config payload)) = k + 1)
   \<and> (\<forall>k e. k < attemptsMade (snd (sendMeteringWithRetry rt tr config payload)) \<and> k < 2
          \<and> attemptError rt tr config payload k = Some e \<and> \<not> IsValidationError e
        \<longrightarrow> k + 1 < attemptsMade (snd (sendMeteringWithRetry rt tr config payload)))
   \<and> ((\<forall>k<3. \<exists>e. attemptError rt tr config payload k = Some e \<and> \<not> IsValidationError e)
        \<longrightarrow> attemptsMade (snd (sendMeteringWithRetry rt tr config payload)) = 3
            \<and> fst (sendMeteringWithRetry rt tr config payload) =
                Some (NewMeteringError ''metering failed after retries''
                  (Some (Errorf ''retries: 3, last error: %w''
                     (attemptError rt tr config payload 2)))))
   \<and> (\<forall>k req. snd (sendMeteringRequest rt tr k config payload) = Some req
        \<longrightarrow> attemptError rt tr config payload k = spec_classify (clientDo tr k req))
   \<and> (\<forall>s body. 400 \<le> s \<and> s < 500
        \<longrightarrow> (\<exists>e. spec_classify (HttpResponse s body) = Some e \<and> IsValidationError e))
   \<and> (\<forall>cause. \<exists>e. spec_classify (TransportError cause) = Some e \<and> \<not> IsValidationError e)
   \<and> (\<forall>s body. 500 \<le> s
        \<longrightarrow> (\<exists>e. spec_classify (HttpResponse s body) = Some e \<and> \<not> IsValidationError e))"
proof -
  have p1: "1 \<le> attemptsMade (snd (sendMeteringWithRetry rt tr config payload))"
    unfolding retry_attempts_made by simp
  have p2: "attemptsMade (snd (sendMeteringWithRetry rt tr config payload)) \<le> 3"
    unfolding retry_attempts_made by simp
  note p3 = retry_events [of rt tr config payload]
  have p4: "\<forall>k e. k < attemptsMade (snd (sendMeteringWithRetry rt tr config payload))
          \<and> attemptError rt tr config payload k = Some e \<and> IsValidationError e
        \<longrightarrow> fst (sendMeteringWithRetry rt tr config payload) = Some e
            \<and> attemptsMade (snd (sendMeteringWithRetry rt tr config payload)) = k + 1"
    using retry_validation_stops [of _ rt tr config payload] by blast
  have p5: "\<forall>k. k < attemptsMade (snd (sendMeteringWithRetry rt tr config payload))
          \<and> attemptError rt tr config payload k = None
        \<longrightarrow> fst (sendMeteringWithRetry rt tr config payload) = None
            \<and> attemptsMade (snd (sendMeteringWithRetry rt tr config payload)) = k + 1"
    using retry_success_stops [of _ rt tr config payload] by blast
  have p6: "\<forall>k e. k < attemptsMade (snd (sendMeteringWithRetry rt tr config payload)) \<and> k < 2
          \<and> attemptError rt tr config payload k = Some e \<and> \<not> IsValidationError e
        \<longrightarrow> k + 1 < attemptsMade (snd (sendMeteringWithRetry rt tr config payload))"
    using retry_transient_retried [of _ rt tr config payload] by blast
  have p7: "(\<forall>k<3. \<exists>e. attemptError rt tr config payload k = Some e \<and> \<not> IsValidationError e)
        \<longrightarrow> attemptsMade (snd (sendMeteringWithRetry rt tr config payload)) = 3
            \<and> fst (sendMeteringWithRetry rt tr config payload) =
                Some (NewMeteringError ''metering failed after retries''
                  (Some (Errorf ''retries: 3, last error: %w''
                     (attemptError rt tr config payload 2))))"
    using retry_exhausted [of rt tr config payload] by (intro impI)
  have p8: "\<forall>k req. snd (sendMeteringRequest rt tr k config payload) = Some req
        \<longrightarrow> attemptError rt tr config payload k = spec_classify (clientDo tr k req)"
    using sendMeteringRequest_classifies [of rt tr _ config payload] by (intro allI impI)
  have p9: "\<forall>s body. 400 \<le> s \<and> s < 500
        \<longrightarrow> (\<exists>e. spec_classify (HttpResponse s body) = Some e \<and> IsValidationError e)"
    using spec_classify_4xx by (intro allI impI) (elim conjE)
  have p10: "\<forall>cause. \<exists>e. spec_classify (TransportError cause) = Some e \<and> \<not> IsValidationError e"
    using spec_classify_transient(1) by (intro allI)
  have p11: "\<forall>s body. 500 \<le> s
        \<longrightarrow> (\<exists>e. spec_classify (HttpResponse s body) = Some e \<and> \<not> IsValidationError e)"
    using spec_classify_transient(2) by (intro allI impI)
  show ?thesis
    by (intro conjI p1 p2 p3 p4 p5 p6 p7 p8 p9 p10 p11)
qed

lemma example_attemptError:
  "k < length statuses \<Longrightarrow>
     attemptError example_runtime (example_transport statuses) (Some example_config) payload k
       = spec_classify (HttpResponse (statuses ! k) '''')"
  by (simp add: attemptError_def sendMeteringRequest_def example_transport_def
      example_config_def spec_classify_def Let_def)

theorem sendMeteringWithRetry_policy_witness:
  "attemptError example_runtime (example_transport [400]) (Some example_config) Map.empty 0
     = Some (NewValidationError (''metering API returned '' @ showInt 400 @ '': '') None)
   \<and> IsValidationError (NewValidationError (''metering API returned '' @ showInt 400 @ '': '') None)
   \<and> fst (sendMeteringWithRetry example_runtime (example_transport [400]) (Some example_config)
        Map.empty)
       = Some (NewValidationError (''metering API returned '' @ showInt 400 @ '': '') None)
   \<and> attemptsMade (snd (sendMeteringWithRetry example_runtime (example_transport [400])
        (Some example_config) Map.empty)) = 1
   \<and> attemptError example_runtime (example_transport [500, 500, 200]) (Some example_config)
        Map.empty 2 = None
   \<and> fst (sendMeteringWithRetry example_runtime (example_transport [500, 500, 200])
        (Some example_config) Map.empty) = None
   \<and> attemptsMade (snd (sendMeteringWithRetry example_runtime (example_transport [500, 500, 200])
        (Some example_config) Map.empty)) = 3
   \<and> fst (sendMeteringWithRetry example_runtime (example_transport [500, 503, 500])
        (Some example_config) Map.empty)
       = Some (NewMeteringError ''metering failed after retries''
           (Some (Errorf ''retries: 3, last error: %w''
              (Some (NewMeteringError ''metering API error''
                 (Some (Errorf (''status '' @ showInt 500 @ '': '') None)))))))
   \<and> attemptsMade (snd (sendMeteringWithRetry example_runtime (example_transport [500, 503, 500])
        (Some example_config) Map.empty)) = 3"
proof -
  let ?E = "\<lambda>ss. attemptError example_runtime (example_transport ss) (Some example_config)
      Map.empty"
  let ?R = "\<lambda>ss. sendMeteringWithRetry example_runtime (example_transport ss)
      (Some example_config) Map.empty"
  note P = sendMeteringWithRetry_policy [of example_runtime _ "Some example_config" Map.empty]
  note atLeast1 = P [THEN conjunct1]
  note validation = P [THEN conjunct2, THEN conjunct2, THEN conjunct2, THEN conjunct1,
      rule_format]
  note success = P [THEN conjunct2, THEN conjunct2, THEN conjunct2, THEN conjunct2,
      THEN conjunct1, rule_format]
  note transient = P [THEN conjunct2, THEN conjunct2, THEN conjunct2, THEN conjunct2,
      THEN conjunct2, THEN conjunct1, rule_format]
  note exhausted = P [THEN conjunct2, THEN conjunct2, THEN conjunct2, THEN conjunct2,
      THEN conjunct2, THEN conjunct2, THEN conjunct1, rule_format]
  \<comment> \<open>a 400 on the first attempt\<close>
  have a0: "?E [400] 0
      = Some (NewValidationError (''metering API returned '' @ showInt 400 @ '': '') None)"
    by (simp add: example_attemptError spec_classify_def)
  have v: "IsValidationError
      (NewValidationError (''metering API returned '' @ showInt 400 @ '': '') None)"
    by (simp add: NewValidationError_def)
  have n1: "0 < attemptsMade (snd (?R [400]))"
    using atLeast1 [of "example_transport [400]"] by simp
  have r1: "fst (?R [400])
      = Some (NewValidationError (''metering API returned '' @ showInt 400 @ '': '') None)
      \<and> attemptsMade (snd (?R [400])) = 0 + 1"
    using validation [of 0 "example_transport [400]"] n1 a0 v by simp
  \<comment> \<open>two 500s, then a 200\<close>
  have b0: "?E [500, 500, 200] 0 = Some (NewMeteringError ''metering API error''
        (Some (Errorf (''status '' @ showInt 500 @ '': '') None)))"
    and b1: "?E [500, 500, 200] 1 = Some (NewMeteringError ''metering API error''
        (Some (Errorf (''status '' @ showInt 500 @ '': '') None)))"
    and b2: "?E [500, 500, 200] 2 = None"
    by (simp_all add: example_attemptError spec_classify_def)
  have nv: "\<not> IsValidationError (NewMeteringError m c)" for m c
    by (simp add: NewMeteringError_def)
  have m1: "0 < attemptsMade (snd (?R [500, 500, 200]))"
    using atLeast1 [of "example_transport [500, 500, 200]"] by simp
  have m2: "0 + 1 < attemptsMade (snd (?R [500, 500, 200]))"
    using transient [of 0 "example_transport [500, 500, 200]"] m1 b0 nv by simp
  have m3: "1 + 1 < attemptsMade (snd (?R [500, 500, 200]))"
    using transient [of 1 "example_transport [500, 500, 200]"] m2 b1 nv by simp
  have r2: "fst (?R [500, 500, 200]) = None
      \<and> attemptsMade (snd (?R [500, 500, 200])) = 2 + 1"
    using success [of 2 "example_transport [500, 500, 200]"] m3 b2 by simp
  \<comment> \<open>three failures\<close>
  have c: "?E [500, 503, 500] 0 = Some (NewMeteringError ''metering API error''
        (Some (Errorf (''status '' @ showInt 500 @ '': '') None)))"
    "?E [500, 503, 500] 1 = Some (NewMeteringError ''metering API error''
        (Some (Errorf (''status '' @ showInt 503 @ '': '') None)))"
    "?E [500, 503, 500] 2 = Some (NewMeteringError ''metering API error''
        (Some (Errorf (''status '' @ showInt 500 @ '': '') None)))"
    by (simp_all add: example_attemptError spec_classify_def)
  have all: "\<exists>e. ?E [500, 503, 500] k = Some e \<and> \<not> IsValidationError e" if "k < 3" for k
  proof -
    have "k = 0 \<or> k = 1 \<or> k = 2" using that by (simp add: less_3_cases)
    then show ?thesis using c nv by (elim disjE) simp_all
  qed
  have r3: "attemptsMade (snd (?R [500, 503, 500])) = 3
      \<and> fst (?R [500, 503, 500]) = Some (NewMeteringError ''metering failed after retries''
           (Some (Errorf ''retries: 3, last error: %w'' (?E [500, 503, 500] 2))))"
    by (rule exhausted) (use all in blast)
  show ?thesis
    apply (intro conjI)
            apply (rule a0)
           apply (rule v)
          apply (rule r1 [THEN conjunct1])
         apply (use r1 in simp)
        apply (rule b2)
       apply (rule r2 [THEN conjunct1])
      apply (use r2 in simp)
     apply (use r3 c(3) in simp)
    apply (rule r3 [THEN conjunct1])
    done
qed

lemma retry_attempt_payload:
  assumes "Attempt p req \<in> set (snd (sendMeteringWithRetry rt tr config payload))"
  shows "p = payload \<and> (\<exists>k<3. req = snd (sendMeteringRequest rt tr k config payload))"
proof -
  have "set (snd (sendMeteringWithRetry rt tr config payload))
      \<subseteq> {attemptEvent rt tr config payload 0, Sleep 100,
         attemptEvent rt tr config payload 1, Sleep 200,
         attemptEvent rt tr config payload 2}"
    unfolding sendMeteringWithRetry_closed_form by simp
  then have "Attempt p req \<in> {attemptEvent rt tr config payload 0,
         attemptEvent rt tr config payload 1, attemptEvent rt tr config payload 2}"
    using assms by auto
  then show ?thesis
    by (auto simp: attemptEvent_def less_3_cases)
qed

lemma sendMeteringRequest_body:
  assumes "snd (sendMeteringRequest rt tr k config payload) = Some r"
  shows "jsonMarshal tr payload = Inr (req_body r)"
  using assms
  by (auto simp: sendMeteringRequest_def Let_def
      split: option.splits sum.splits if_splits HttpOutcome.splits)

text \<open>
  C8, as the code has it. A metering task yields one payload. The payload's
  transaction id is fixed when the payload is built: it is the value the caller's
  metadata holds under \<^verbatim>\<open>transactionId\<close> if there is one, and the id generated from
  the clock at that moment otherwise. Every delivery attempt is made with this one
  payload, hence with this one transaction id, and every request that reaches the
  network carries the serialization of this payload.
\<close>

theorem retries_resend_the_same_payload:
  "fst (sendMeteringDataWithTiming rt tr cfg model metadata provider config now1 now2 task)
     = taskPayload rt model metadata provider config now1 now2 task
   \<and> (\<forall>p req. Attempt p req \<in> set (snd (snd (sendMeteringDataWithTiming rt tr cfg model
                  metadata provider config now1 now2 task)))
        \<longrightarrow> p = taskPayload rt model metadata provider config now1 now2 task
            \<and> p ''transactionId''
                = taskPayload rt model metadata provider config now1 now2 task ''transactionId'')
   \<and> (\<forall>p r. Attempt p (Some r) \<in> set (snd (snd (sendMeteringDataWithTiming rt tr cfg model
                  metadata provider config now1 now2 task)))
        \<longrightarrow> jsonMarshal tr (taskPayload rt model metadata provider config now1 now2 task)
              = Inr (req_body r))
   \<and> taskPayload rt model metadata provider config now1 now2 task ''transactionId''
       = (case (case metadata of None \<Rightarrow> None | Some md \<Rightarrow> md ''transactionId'') of
            Some v \<Rightarrow> Some v
          | None \<Rightarrow> Some (VString (generateRequestID now1 now2)))"
proof -
  let ?P = "taskPayload rt model metadata provider config now1 now2 task"
  have run: "sendMeteringDataWithTiming rt tr cfg model metadata provider config now1 now2 task
      = (?P, sendMeteringWithRetry rt tr cfg ?P)"
    by (simp add: sendMeteringDataWithTiming_def Let_def case_prod_beta)
  have a: "\<forall>p req. Attempt p req \<in> set (snd (sendMeteringWithRetry rt tr cfg ?P))
        \<longrightarrow> p = ?P \<and> p ''transactionId'' = ?P ''transactionId''"
    using retry_attempt_payload [of _ _ rt tr cfg ?P] by blast
  have b: "\<forall>p r. Attempt p (Some r) \<in> set (snd (sendMeteringWithRetry rt tr cfg ?P))
        \<longrightarrow> jsonMarshal tr ?P = Inr (req_body r)"
  proof (intro allI impI)
    fix p r
    assume "Attempt p (Some r) \<in> set (snd (sendMeteringWithRetry rt tr cfg ?P))"
    then obtain k where "Some r = snd (sendMeteringRequest rt tr k cfg ?P)"
      using retry_attempt_payload [of p "Some r" rt tr cfg ?P] by blast
    then show "jsonMarshal tr ?P = Inr (req_body r)"
      using sendMeteringRequest_body [of rt tr k cfg ?P r] by simp
  qed
  have c: "?P ''transactionId''
       = (case (case metadata of None \<Rightarrow> None | Some md \<Rightarrow> md ''transactionId'') of
            Some v \<Rightarrow> Some v
          | None \<Rightarrow> Some (VString (generateRequestID now1 now2)))"
    unfolding taskPayload_def by (rule payload_transactionId)
  show ?thesis
    unfolding run fst_conv snd_conv using a b c by (intro conjI) simp_all
qed

theorem retries_resend_the_same_payload_witness:
  "Attempt (taskPayload example_runtime ''gemini-2.0-flash'' None ''GOOGLE_AI'' None 1 2
              example_task)
     (snd (sendMeteringRequest example_runtime (example_transport [500, 200]) 1
        (Some example_config)
        (taskPayload example_runtime ''gemini-2.0-flash'' None ''GOOGLE_AI'' None 1 2
           example_task)))
     \<in> set (snd (snd (sendMeteringDataWithTiming example_runtime (example_transport [500, 200])
          (Some example_config) ''gemini-2.0-flash'' None ''GOOGLE_AI'' None 1 2 example_task)))
   \<and> attemptsMade (snd (snd (sendMeteringDataWithTiming example_runtime
        (example_transport [500, 200]) (Some example_config) ''gemini-2.0-flash'' None
        ''GOOGLE_AI'' None 1 2 example_task))) = 2
   \<and> taskPayload example_runtime ''gemini-2.0-flash'' None ''GOOGLE_AI'' None 1 2 example_task
        ''transactionId'' = Some (VString ''1-2'')"
proof -
  let ?P = "taskPayload example_runtime ''gemini-2.0-flash'' None ''GOOGLE_AI'' None 1 2
      example_task"
  let ?tr = "example_transport [500, 200]"
  have e0: "\<not> stopsRetry (attemptError example_runtime ?tr (Some example_config) ?P 0)"
    by (simp add: example_attemptError spec_classify_def stopsRetry_def NewMeteringError_def)
  have e1: "stopsRetry (attemptError example_runtime ?tr (Some example_config) ?P 1)"
    by (simp add: example_attemptError spec_classify_def stopsRetry_def)
  have run: "snd (sendMeteringDataWithTiming example_runtime ?tr (Some example_config)
      ''gemini-2.0-flash'' None ''GOOGLE_AI'' None 1 2 example_task)
      = sendMeteringWithRetry example_runtime ?tr (Some example_config) ?P"
    by (simp add: sendMeteringDataWithTiming_def Let_def case_prod_beta)
  have ev: "snd (sendMeteringWithRetry example_runtime ?tr (Some example_config) ?P)
      = [attemptEvent example_runtime ?tr (Some example_config) ?P 0, Sleep 100,
         attemptEvent example_runtime ?tr (Some example_config) ?P 1]"
    unfolding sendMeteringWithRetry_closed_form using e0 e1 by simp
  have "?P ''transactionId'' = Some (VString (generateRequestID 1 2))"
    using retries_resend_the_same_payload [of example_runtime ?tr "Some example_config"
        "''gemini-2.0-flash''" None "''GOOGLE_AI''" None 1 2 example_task]
    by simp
  then show ?thesis
    unfolding run ev
    by (simp add: attemptsMade_def generateRequestID_examples attemptEvent_def)
qed

text \<open>
  The claim as stated fails: when the caller's metadata holds a \<^verbatim>\<open>transactionId\<close>,
  the payload carries that value and not a freshly generated one; two payloads built
  at different moments then carry the same transaction id.
\<close>

theorem transactionId_not_fresh_counterexample:
  "taskPayload example_runtime ''gemini-2.0-flash'' (Some example_metadata) ''GOOGLE_AI'' None
      1 2 example_task ''transactionId'' = Some (VString ''tx-1'')
   \<and> taskPayload example_runtime ''gemini-2.0-flash'' (Some example_metadata) ''GOOGLE_AI'' None
      3 4 example_task ''transactionId'' = Some (VString ''tx-1'')
   \<and> generateRequestID 1 2 = ''1-2''
   \<and> generateRequestID 3 4 = ''3-4''"
  by (simp add: taskPayload_def payload_transactionId example_metadata_def
      generateRequestID_examples)

section \<open>Vision detection: properties\<close>

lemma containsString_iff: "containsString xs v \<longleftrightarrow> v \<in> set xs"
  by (induction xs) auto

lemma isImageMimeType_nonempty: "isImageMimeType L m \<Longrightarrow> m \<noteq> ''''"
  by (auto simp: isImageMimeType_def)

lemma processInlineData_spec:
  "processInlineData L (Some b) r =
     foldl spec_add_image r
       (if isImageMimeType L (blob_MIMEType b)
        then [(blob_MIMEType b, (case blob_Data b of None \<Rightarrow> 0 | Some d \<Rightarrow> length d))]
        else [])"
  by (auto simp: processInlineData_def spec_add_image_def Let_def containsString_iff
      isImageMimeType_nonempty split: option.splits)

lemma processFileData_spec:
  "processFileData L (Some f) r =
     foldl spec_add_image r
       (if isImageMimeType L (file_MIMEType f) then [(file_MIMEType f, 0)] else [])"
  by (auto simp: processFileData_def spec_add_image_def Let_def containsString_iff
      isImageMimeType_nonempty)

lemma detectParts_spec:
  "detectParts L parts r = foldl spec_add_image r (concat (map (spec_part_images L) parts))"
proof (induction parts arbitrary: r)
  case Nil
  then show ?case by simp
next
  case (Cons part rest)
  show ?case
  proof (cases part)
    case None
    then show ?thesis using Cons by (simp add: spec_part_images_def)
  next
    case (Some p)
    have step: "(let r1 = (if InlineData p \<noteq> None then processInlineData L (InlineData p) r
                           else r);
                    r2 = (if FileData p \<noteq> None then processFileData L (FileData p) r1 else r1)
                in r2) = foldl spec_add_image r (spec_part_images L (Some p))"
      by (cases "InlineData p"; cases "FileData p")
         (simp_all add: spec_part_images_def processInlineData_spec processFileData_spec
            Let_def)
    show ?thesis
      using Some Cons.IH step by (simp add: Let_def)
  qed
qed

lemma detectContents_spec:
  "detectContents L contents r = foldl spec_add_image r (spec_images L contents)"
proof (induction contents arbitrary: r)
  case Nil
  then show ?case by (simp add: spec_images_def)
next
  case (Cons content rest)
  then show ?case
    by (cases content) (simp_all add: spec_images_def detectParts_spec)
qed

lemma foldl_spec_add_image:
  "ImageCount (foldl spec_add_image r items) = ImageCount r + length items
   \<and> TotalImageSizeBytes (foldl spec_add_image r items)
       = TotalImageSizeBytes r + sum_list (map snd items)
   \<and> set (MediaTypes (foldl spec_add_image r items)) = set (MediaTypes r) \<union> fst ` set items
   \<and> (distinct (MediaTypes r) \<longrightarrow> distinct (MediaTypes (foldl spec_add_image r items)))
   \<and> (HasVisionContent (foldl spec_add_image r items) \<longleftrightarrow> HasVisionContent r \<or> items \<noteq> [])"
proof (induction items arbitrary: r)
  case Nil
  then show ?case by simp
next
  case (Cons item rest)
  let ?r = "spec_add_image r item"
  have f: "ImageCount ?r = ImageCount r + 1"
    "TotalImageSizeBytes ?r = TotalImageSizeBytes r + snd item"
    "set (MediaTypes ?r) = insert (fst item) (set (MediaTypes r))"
    "distinct (MediaTypes r) \<longrightarrow> distinct (MediaTypes ?r)"
    "HasVisionContent ?r"
    by (auto simp: spec_add_image_def)
  show ?case
    unfolding foldl_Cons using Cons.IH [of ?r] f by auto
qed

text \<open>
  What \<^verbatim>\<open>DetectVisionContent\<close> computes, for every list of contents: the number of
  image items (inline blobs and file references whose media type is an image type),
  the sum of the byte sizes of the inline ones, the media types seen, each once, and
  whether there was any image item at all.
\<close>

lemma DetectVisionContent_spec:
  "ImageCount (DetectVisionContent L contents) = length (spec_images L contents)
   \<and> TotalImageSizeBytes (DetectVisionContent L contents)
       = sum_list (map snd (spec_images L contents))
   \<and> set (MediaTypes (DetectVisionContent L contents)) = fst ` set (spec_images L contents)
   \<and> distinct (MediaTypes (DetectVisionContent L contents))
   \<and> (HasVisionContent (DetectVisionContent L contents) \<longleftrightarrow> spec_images L contents \<noteq> [])"
  unfolding DetectVisionContent_def detectContents_spec
  using foldl_spec_add_image
    [of "\<lparr>HasVisionContent = False, ImageCount = 0, TotalImageSizeBytes = 0, MediaTypes = []\<rparr>"
        "spec_images L contents"]
  by simp

lemma DetectVisionContent_nil:
  "DetectVisionContent L [] =
     \<lparr>HasVisionContent = False, ImageCount = 0, TotalImageSizeBytes = 0, MediaTypes = []\<rparr>"
  by (simp add: DetectVisionContent_def)

text \<open>
  On a media type of ASCII bytes, the image test is a case-insensitive prefix test.
\<close>

lemma isImageMimeType_ASCII:
  assumes "isASCII m"
  shows "isImageMimeType L m \<longleftrightarrow> spec_equal_ignoring_case (take 6 m) ''image/''"
proof -
  define img where "img = ''image/''"
  have len: "length img = 6" by (simp add: img_def)
  have fold: "spec_fold img = img"
    by (simp add: img_def spec_fold_def lowerASCII_def byte_def)
  have code: "isImageMimeType L m \<longleftrightarrow>
      m \<noteq> [] \<and> 6 \<le> length m \<and> map lowerASCII (take 6 m) = img"
    using assms len
    by (simp add: isImageMimeType_def ToLower_def HasPrefix_def Let_def take_map
        img_def [symmetric])
  have spec: "spec_equal_ignoring_case (take 6 m) img \<longleftrightarrow> map lowerASCII (take 6 m) = img"
    by (simp add: spec_equal_ignoring_case_def fold) (simp add: spec_fold_def)
  have long: "6 \<le> length m \<and> m \<noteq> []" if "map lowerASCII (take 6 m) = img"
  proof -
    have "length (map lowerASCII (take 6 m)) = 6" using that len by simp
    then show ?thesis by auto
  qed
  show ?thesis
    unfolding img_def [symmetric] code spec using long by blast
qed

lemma isImageMimeType_png: "isImageMimeType L ''image/png''"
  by (simp add: isImageMimeType_def ToLower_def HasPrefix_def isASCII_def lowerASCII_def
      byte_def Let_def)

lemma DetectVisionContent_one_inline_png:
  "DetectVisionContent L
     [Some \<lparr>Role = role,
            Parts = [Some \<lparr>Text = text,
                           InlineData = Some \<lparr>blob_MIMEType = ''image/png'',
                                               blob_Data = Some bytes\<rparr>,
                           FileData = None\<rparr>]\<rparr>] =
     \<lparr>HasVisionContent = True, ImageCount = 1, TotalImageSizeBytes = length bytes,
      MediaTypes = [''image/png'']\<rparr>"
  by (simp add: DetectVisionContent_def processInlineData_def isImageMimeType_png Let_def)

lemma DetectVisionContent_png:
  "DetectVisionContent L example_png_request =
     \<lparr>HasVisionContent = True, ImageCount = 1, TotalImageSizeBytes = 1024,
      MediaTypes = [''image/png'']\<rparr>"
  unfolding example_png_request_def DetectVisionContent_one_inline_png length_replicate ..

text \<open>
  C9, where the code departs from the claim. For the request with one inline PNG of
  1024 bytes, \<^verbatim>\<open>DetectVisionContent\<close> finds one image of 1024 bytes of type
  image/png, and \<^verbatim>\<open>BuildVisionAttributes\<close> renders these statistics as an
  attributes map. But the payload built by \<^verbatim>\<open>buildGoogleMeteringPayloadWithTiming\<close>,
  which is not given the request's contents, has no \<^verbatim>\<open>attributes\<close> entry and no
  vision entry, whatever its arguments are.
\<close>

theorem vision_stats_not_attached_to_chat_payload:
  "DetectVisionContent L example_png_request =
     \<lparr>HasVisionContent = True, ImageCount = 1, TotalImageSizeBytes = 1024,
      MediaTypes = [''image/png'']\<rparr>
   \<and> BuildVisionAttributes (DetectVisionContent L example_png_request) =
       Some (map_of
         [(''vision_image_count'', VInt64 1),
          (''vision_total_size_bytes'', VInt64 1024),
          (''vision_media_types'', VList [VString ''image/png''])])
   \<and> list_all
        (\<lambda>k. buildGoogleMeteringPayloadWithTiming rt resp model metadata isStreamed requestTime
               completionStartTime responseTime provider config err now1 now2 k = None)
        [''attributes'', ''vision_image_count'', ''vision_total_size_bytes'',
         ''vision_media_types'', ''hasVisionContent'']"
proof -
  have absent: "buildGoogleMeteringPayloadWithTiming rt resp model metadata isStreamed
      requestTime completionStartTime responseTime provider config err now1 now2 k = None"
    if "k \<in> set [''attributes'', ''vision_image_count'', ''vision_total_size_bytes'',
         ''vision_media_types'', ''hasVisionContent'']" for k
  proof -
    have "k = ''attributes'' \<or> k = ''vision_image_count'' \<or> k = ''vision_total_size_bytes''
        \<or> k = ''vision_media_types'' \<or> k = ''hasVisionContent''"
      using that by simp
    then show ?thesis
      by (elim disjE; hypsubst; subst payload_fixed_field)
         (simp_all add: metadataKeys_def initialPayload_def Let_def)
  qed
  have attrs: "BuildVisionAttributes
      \<lparr>HasVisionContent = True, ImageCount = 1, TotalImageSizeBytes = 1024,
       MediaTypes = [''image/png'']\<rparr> =
       Some (map_of
         [(''vision_image_count'', VInt64 1),
          (''vision_total_size_bytes'', VInt64 1024),
          (''vision_media_types'', VList [VString ''image/png''])])"
    by (simp add: BuildVisionAttributes_def)
  have none: "list_all
        (\<lambda>k. buildGoogleMeteringPayloadWithTiming rt resp model metadata isStreamed requestTime
               completionStartTime responseTime provider config err now1 now2 k = None)
        [''attributes'', ''vision_image_count'', ''vision_total_size_bytes'',
         ''vision_media_types'', ''hasVisionContent'']"
    unfolding list_all_iff using absent by blast
  show ?thesis
    unfolding DetectVisionContent_png using attrs none by (intro conjI refl)
qed

section \<open>Truncation: properties\<close>

lemma ValidString_ASCII: "isASCII s \<Longrightarrow> ValidString s"
proof (induction s)
  case Nil
  show ?case by (rule ValidString_Nil)
next
  case (Cons c s)
  then have "byte c < 0x80" and "ValidString s"
    by (simp_all add: isASCII_def)
  moreover from this have "seqLen (c # s) = 1"
    by (simp add: leadLen_def tailOK_def)
  ultimately show ?case
    using ValidString_step [of "c # s"] by simp
qed

lemma boundary_iff:
  assumes "ValidString s" and "k < length s"
  shows "spec_char_boundary s k \<longleftrightarrow> \<not> isCont (s ! k)"
proof -
  have "ValidString (take k s) \<longleftrightarrow> \<not> isCont (s ! k)"
    using assms by (rule ValidString_take_iff)
  moreover have "ValidString (take k s) \<Longrightarrow> ValidString (drop k s)"
    using assms(1) by (rule ValidString_drop)
  ultimately show ?thesis
    using assms(2) by (auto simp: spec_char_boundary_def)
qed

lemma last_filter_upt:
  assumes "P n" and "n \<le> m" and "\<And>k. n < k \<Longrightarrow> k \<le> m \<Longrightarrow> \<not> P k"
  shows "last (filter P [0..<Suc m]) = n"
  using assms(2,3)
proof (induction m)
  case 0
  then show ?case using assms(1) by simp
next
  case (Suc m)
  have u: "filter P [0..<Suc (Suc m)] = filter P [0..<Suc m] @ filter P [Suc m]"
    by (simp del: upt_Suc add: upt_Suc_append)
  show ?case
  proof (cases "n = Suc m")
    case True
    then show ?thesis unfolding u using assms(1) by simp
  next
    case False
    then have "n \<le> m" and np: "\<not> P (Suc m)"
      using Suc.prems by simp_all
    then have "last (filter P [0..<Suc m]) = n"
      using Suc.prems(2) by (intro Suc.IH) simp_all
    then show ?thesis unfolding u using np by (simp del: upt_Suc)
  qed
qed

lemma spec_cut_eq:
  assumes "spec_char_boundary s n" and "n \<le> m"
    and "\<And>k. n < k \<Longrightarrow> k \<le> m \<Longrightarrow> \<not> spec_char_boundary s k"
  shows "spec_cut s m = n"
  unfolding spec_cut_def using assms by (rule last_filter_upt)

lemma spec_cut_boundary: "spec_char_boundary s m \<Longrightarrow> spec_cut s m = m"
  by (rule spec_cut_eq) simp_all

lemma backUp_is_cut:
  assumes "ValidString s" and "m < length s"
  shows "backUp s m = spec_cut s m"
proof -
  have le: "backUp s m \<le> m"
    by (rule backUp_le)
  have "s \<noteq> []"
    using assms(2) by auto
  then have "\<not> isCont (s ! 0)"
    using ValidString_parts [OF assms(1)] seq_head_not_cont by simp
  then have "\<not> isCont (s ! backUp s m)"
    using backUp_stops [OF assms(2)] by auto
  then have b: "spec_char_boundary s (backUp s m)"
    using boundary_iff [OF assms(1), of "backUp s m"] le assms(2) by simp
  have "\<not> spec_char_boundary s k" if "backUp s m < k" and "k \<le> m" for k
    using backUp_skipped [OF assms(2) that] boundary_iff [OF assms(1), of k] that assms(2)
    by simp
  with b le show ?thesis
    by (intro spec_cut_eq [symmetric]) simp_all
qed

lemma truncate_short: "length s \<le> m \<Longrightarrow> truncateUTF8Safe s m = s"
  by (simp add: truncateUTF8Safe_def)

lemma truncate_length: "length (truncateUTF8Safe s m) \<le> m"
proof (cases "length s \<le> m")
  case True
  then show ?thesis by (simp add: truncate_short)
next
  case False
  have le: "backUp s m \<le> m"
    by (rule backUp_le)
  have "length (appendRunes (backUp s m) [] (runes s)) \<le> backUp s m"
    by (rule appendRunes_length) (simp_all add: runes_valid)
  then show ?thesis
    using False le by (simp add: truncateUTF8Safe_def Let_def)
qed

lemma truncate_valid: "m < length s \<Longrightarrow> ValidString (truncateUTF8Safe s m)"
  by (simp add: truncateUTF8Safe_def Let_def appendRunes_valid ValidString_Nil)

lemma truncate_of_valid:
  assumes "ValidString s" and "m < length s"
  shows "truncateUTF8Safe s m = take (spec_cut s m) s"
proof -
  have "spec_char_boundary s (spec_cut s m)"
  proof -
    have le: "backUp s m \<le> m"
      by (rule backUp_le)
    have "s \<noteq> []"
      using assms(2) by auto
    then have "\<not> isCont (s ! 0)"
      using ValidString_parts [OF assms(1)] seq_head_not_cont by simp
    then have "\<not> isCont (s ! backUp s m)"
      using backUp_stops [OF assms(2)] by auto
    then have "spec_char_boundary s (backUp s m)"
      using boundary_iff [OF assms(1), of "backUp s m"] le assms(2) by simp
    then show ?thesis
      by (simp add: backUp_is_cut [OF assms])
  qed
  then have "ValidString (take (backUp s m) s)"
    by (simp add: spec_char_boundary_def backUp_is_cut [OF assms])
  then show ?thesis
    using assms(2) by (simp add: truncateUTF8Safe_def Let_def backUp_is_cut [OF assms])
qed

lemma TruncationMarker_ASCII: "isASCII TruncationMarker"
  by (simp add: TruncationMarker_def isASCII_def byte_def)

lemma truncation_spec:
  assumes "length TruncationMarker \<le> limit"
  shows "spec_truncated_to limit t
           (if limit < length t
            then truncateUTF8Safe t (limit - length TruncationMarker) @ TruncationMarker
            else t)"
proof (cases "limit < length t")
  case False
  then show ?thesis by (simp add: spec_truncated_to_def)
next
  case True
  define m where "m = limit - length TruncationMarker"
  define out where "out = truncateUTF8Safe t m @ TruncationMarker"
  have m: "m < length t" and lm: "m + length TruncationMarker = limit"
    using True assms by (simp_all add: m_def)
  have l: "length out \<le> limit"
    using truncate_length [of t m] lm by (simp add: out_def)
  have s: "suffix TruncationMarker out"
    by (simp add: out_def suffix_def)
  have v: "ValidString out"
    unfolding out_def
    using ValidString_append [OF truncate_valid [OF m]] ValidString_ASCII [OF TruncationMarker_ASCII]
    by simp
  have c: "out = take (spec_cut t m) t @ TruncationMarker" if "ValidString t"
    using truncate_of_valid [OF that m] by (simp add: out_def)
  have e: "length out = limit" if "ValidString t" and "spec_char_boundary t m"
    using c [OF that(1)] spec_cut_boundary [OF that(2)] m lm by simp
  show ?thesis
    using True l s v c e
    unfolding spec_truncated_to_def m_def [symmetric] out_def [symmetric]
    by (simp add: out_def m_def)
qed

section \<open>Captured prompts and responses: properties\<close>

lemma marker_fits:
  "length TruncationMarker \<le> MaxPromptLength"
  "length TruncationMarker \<le> MaxPromptLength div 2"
  by (simp_all add: TruncationMarker_def MaxPromptLength_def)

lemma ExtractResponseContent_output:
  "OutputResponse (ExtractResponseContent respText (Some r) flag) =
     (if MaxPromptLength < length (respText r)
      then truncateUTF8Safe (respText r) (MaxPromptLength - length TruncationMarker)
             @ TruncationMarker
      else respText r)"
  by (simp add: ExtractResponseContent_def Let_def)

lemma ExtractResponseContent_flag:
  "PromptsTruncated (ExtractResponseContent respText (Some r) flag) =
     (flag \<or> MaxPromptLength < length (respText r))"
  by (simp add: ExtractResponseContent_def Let_def)

lemma ExtractStreamingResponseContent_output:
  "OutputResponse (ExtractStreamingResponseContent accumulated flag) =
     (if MaxPromptLength < length accumulated
      then truncateUTF8Safe accumulated (MaxPromptLength - length TruncationMarker)
             @ TruncationMarker
      else accumulated)"
  by (simp add: ExtractStreamingResponseContent_def Let_def)

lemma ExtractStreamingResponseContent_flag:
  "PromptsTruncated (ExtractStreamingResponseContent accumulated flag) =
     (flag \<or> MaxPromptLength < length accumulated)"
  by (simp add: ExtractStreamingResponseContent_def Let_def)

lemma collectMessages_spec:
  "\<exists>msgs. collectMessages contents (ms, f)
            = (ms @ msgs, f \<or> list_ex spec_long_message (spec_present contents))
          \<and> list_all2 spec_captured_message (spec_present contents) msgs"
proof (induction contents arbitrary: ms f)
  case Nil
  show ?case by simp
next
  case (Cons content rest)
  show ?case
  proof (cases content)
    case None
    then show ?thesis using Cons [of ms f] by simp
  next
    case (Some c)
    define t where "t = extractContentText (Some c)"
    define m where "m = \<lparr>msg_role = (if Role c = [] then ''user'' else Role c),
      msg_content = (if MaxPromptLength div 2 < length t
                     then truncateUTF8Safe t (MaxPromptLength div 2 - length TruncationMarker)
                            @ TruncationMarker
                     else t)\<rparr>"
    have step: "collectMessages (Some c # rest) (ms, f)
        = collectMessages rest (ms @ [m], f \<or> spec_long_message c)"
      by (simp add: Let_def m_def t_def spec_long_message_def)
    have cm: "spec_captured_message c m"
      using truncation_spec [OF marker_fits(2), of t]
      by (simp add: spec_captured_message_def m_def t_def)
    obtain msgs where r: "collectMessages rest (ms @ [m], f \<or> spec_long_message c)
        = ((ms @ [m]) @ msgs,
           (f \<or> spec_long_message c) \<or> list_ex spec_long_message (spec_present rest))"
      and a: "list_all2 spec_captured_message (spec_present rest) msgs"
      using Cons [of "ms @ [m]" "f \<or> spec_long_message c"] by blast
    have "collectMessages (Some c # rest) (ms, f)
        = (ms @ (m # msgs), f \<or> list_ex spec_long_message (spec_present (Some c # rest)))"
      by (simp only: step r) simp
    moreover have "list_all2 spec_captured_message (spec_present (Some c # rest)) (m # msgs)"
      using cm a by simp
    ultimately show ?thesis unfolding Some by blast
  qed
qed

lemma ExtractPrompts_system:
  assumes "SystemInstruction cfg = Some instruction"
  shows "SystemPrompt (ExtractPromptsFromRequest contents (Some cfg)) =
     (if MaxPromptLength < length (extractContentText (Some instruction))
      then truncateUTF8Safe (extractContentText (Some instruction))
             (MaxPromptLength - length TruncationMarker) @ TruncationMarker
      else extractContentText (Some instruction))"
  using assms
  by (simp add: ExtractPromptsFromRequest_def Let_def jsonMarshalMessages_def split: prod.split)

lemma ExtractPrompts_system_flag:
  assumes "SystemInstruction cfg = Some instruction"
    and "MaxPromptLength < length (extractContentText (Some instruction))"
  shows "PromptsTruncated (ExtractPromptsFromRequest contents (Some cfg))"
proof -
  have ne: "extractContentText (Some instruction) \<noteq> []"
    using assms(2) by auto
  obtain msgs where c: "collectMessages contents ([], True)
      = ([] @ msgs, True \<or> list_ex spec_long_message (spec_present contents))"
    using collectMessages_spec [of contents "[]" True] by blast
  show ?thesis
    using assms ne c
    by (simp add: ExtractPromptsFromRequest_def Let_def jsonMarshalMessages_def)
qed

lemma ExtractPrompts_messages:
  "\<exists>msgs. list_all2 spec_captured_message (spec_present contents) msgs
     \<and> jsonMarshalMessages msgs
         = Inr (if msgs = [] then ''null'' else ''['' @ jsonJoin (map jsonMessage msgs) @ '']'')
     \<and> InputMessages (ExtractPromptsFromRequest contents config)
         = (if msgs = [] then [] else ''['' @ jsonJoin (map jsonMessage msgs) @ '']'')
     \<and> (list_ex spec_long_message (spec_present contents)
          \<longrightarrow> PromptsTruncated (ExtractPromptsFromRequest contents config))"
proof -
  define f where "f = PromptsTruncated (ExtractPromptsFromRequest [] config)"
  obtain msgs where c: "collectMessages contents ([], f)
      = ([] @ msgs, f \<or> list_ex spec_long_message (spec_present contents))"
    and a: "list_all2 spec_captured_message (spec_present contents) msgs"
    using collectMessages_spec [of contents "[]" f] by blast
  have e: "msgs = []" if "contents = []"
    using a that by simp
  have i: "InputMessages (ExtractPromptsFromRequest contents config)
         = (if msgs = [] then [] else ''['' @ jsonJoin (map jsonMessage msgs) @ '']'')"
    using c e
    by (cases "contents = []")
      (auto simp add: ExtractPromptsFromRequest_def Let_def jsonMarshalMessages_def f_def
        split: option.split)
  have p: "PromptsTruncated (ExtractPromptsFromRequest contents config)"
    if "list_ex spec_long_message (spec_present contents)"
  proof -
    have "contents \<noteq> []" using that by auto
    then show ?thesis
      using c that
      by (auto simp add: ExtractPromptsFromRequest_def Let_def jsonMarshalMessages_def f_def
          split: option.split)
  qed
  show ?thesis
    using a i p by (auto simp: jsonMarshalMessages_def)
qed

section \<open>JSON serialization: properties\<close>

lemma byte_dquote: "byte dquote = 0x22"
  by (simp add: dquote_def byte_def)

lemma byte_backslash: "byte backslash = 0x5C"
  by (simp add: backslash_def byte_def)

lemma jsonChars_plain_append:
  "list_all (\<lambda>c. 0x20 \<le> byte c \<and> c \<noteq> dquote \<and> c \<noteq> backslash) xs \<Longrightarrow> jsonChars ys
     \<Longrightarrow> jsonChars (xs @ ys)"
  by (induction xs) (auto intro: chars_plain)

lemma isHex_hexDigit: "isHex (hexDigit n)"
proof -
  have "list_all isHex ''0123456789abcdef''"
    by (simp add: isHex_def)
  moreover have "n mod 16 < length ''0123456789abcdef''"
    by simp
  ultimately show ?thesis
    unfolding hexDigit_def list_all_length by blast
qed

lemma isHex_digits: "isHex (CHR ''0'')" "isHex (CHR ''2'')" "isHex (CHR ''f'')" "isHex (CHR ''d'')"
  by (simp_all add: isHex_def)

lemma jsonChars_escapeASCII:
  assumes "jsonChars cs"
  shows "jsonChars (escapeASCII b @ cs)"
proof -
  have e: "jsonChars (backslash # x # cs)"
    if "x \<in> set [dquote, backslash, CHR ''/'', CHR ''b'', CHR ''f'', CHR ''n'', CHR ''r'', CHR ''t'']"
    for x
    using that assms by (rule chars_escape)
  have u: "jsonChars (backslash # CHR ''u'' # CHR ''0'' # CHR ''0'' # hexDigit (byte b div 16)
      # hexDigit (byte b mod 16) # cs)"
    using isHex_digits(1) isHex_digits(1) isHex_hexDigit isHex_hexDigit assms
    by (rule chars_unicode)
  show ?thesis
    unfolding escapeASCII_def using u by (auto intro: e)
qed

lemma seq_bytes_high:
  assumes "0 < seqLen s" and "0x80 \<le> byte (hd s)"
  shows "list_all (\<lambda>c. 0x80 \<le> byte c) (take (seqLen s) s)"
proof -
  from assms(1) obtain b0 rest where s: "s = b0 # rest" and n: "seqLen s = leadLen (byte b0)"
    and t: "tailOK b0 (take (leadLen (byte b0) - 1) rest)"
    by (rule seq_parts)
  have pos: "0 < leadLen (byte b0)"
    using assms(1) n by simp
  then have tk: "take (seqLen s) s = b0 # take (leadLen (byte b0) - 1) rest"
    unfolding n by (simp add: s take_Cons')
  have "list_all isCont (take (leadLen (byte b0) - 1) rest)"
    using t by (rule tailOK_cont)
  then have "list_all (\<lambda>c. 0x80 \<le> byte c) (take (leadLen (byte b0) - 1) rest)"
    by (simp add: list_all_iff isCont_def)
  then show ?thesis
    unfolding tk using assms(2) s by simp
qed

lemma high_bytes_plain:
  assumes "list_all (\<lambda>c. 0x80 \<le> byte c) xs"
  shows "list_all (\<lambda>c. 0x20 \<le> byte c \<and> c \<noteq> dquote \<and> c \<noteq> backslash) xs"
proof -
  have "0x20 \<le> byte c \<and> c \<noteq> dquote \<and> c \<noteq> backslash" if "0x80 \<le> byte c" for c
    using that byte_dquote byte_backslash by auto
  then show ?thesis
    using assms unfolding list_all_iff by blast
qed

lemma appendString_Nil: "appendString [] = []"
  by (subst appendString.simps) simp

lemma appendString_ASCII:
  "byte b < 0x80 \<Longrightarrow> appendString (b # rest) =
     (if htmlSafe (byte b) then b # appendString rest else escapeASCII b @ appendString rest)"
  by (subst appendString.simps) simp

lemma appendString_high:
  assumes "\<not> byte b < 0x80"
  shows "appendString (b # rest) =
     (let c = fst (DecodeRuneInString (take 4 (b # rest)));
          size = snd (DecodeRuneInString (take 4 (b # rest)))
      in if c = RuneError \<and> size = 1
         then [backslash, CHR ''u'', CHR ''f'', CHR ''f'', CHR ''f'', CHR ''d'']
                @ appendString (drop size (b # rest))
         else if c = 0x2028 \<or> c = 0x2029
         then [backslash, CHR ''u'', CHR ''2'', CHR ''0'', CHR ''2'', hexDigit (c mod 16)]
                @ appendString (drop size (b # rest))
         else take size (b # rest) @ appendString (drop size (b # rest)))"
  using assms by (subst appendString.simps) (simp add: Let_def)

lemma jsonChars_appendString: "jsonChars (appendString s)"
proof (induction "length s" arbitrary: s rule: less_induct)
  case less
  show ?case
  proof (cases s)
    case Nil
    then show ?thesis by (simp add: appendString_Nil chars_end)
  next
    case (Cons b rest)
    have r: "jsonChars (appendString rest)"
      using less [of rest] Cons by simp
    show ?thesis
    proof (cases "byte b < 0x80")
      case True
      show ?thesis
      proof (cases "htmlSafe (byte b)")
        case safe: True
        then have "0x20 \<le> byte b" "b \<noteq> dquote" "b \<noteq> backslash"
          using byte_dquote byte_backslash by (auto simp: htmlSafe_def)
        then have "jsonChars (b # appendString rest)"
          using r by (rule chars_plain)
        then show ?thesis
          unfolding Cons using True safe by (simp add: appendString_ASCII)
      next
        case False
        then show ?thesis
          unfolding Cons using True r by (simp add: appendString_ASCII jsonChars_escapeASCII)
      qed
    next
      case False
      define c where "c = fst (DecodeRuneInString (take 4 s))"
      define size where "size = snd (DecodeRuneInString (take 4 s))"
      have "take 4 s \<noteq> []"
        using Cons by simp
      then have pos: "0 < size"
        unfolding size_def by (rule DecodeRuneInString_width)
      then have d: "jsonChars (appendString (drop size s))"
        using less [of "drop size s"] Cons by simp
      have a: "appendString s =
         (if c = RuneError \<and> size = 1
          then [backslash, CHR ''u'', CHR ''f'', CHR ''f'', CHR ''f'', CHR ''d'']
                 @ appendString (drop size s)
          else if c = 0x2028 \<or> c = 0x2029
          then [backslash, CHR ''u'', CHR ''2'', CHR ''0'', CHR ''2'', hexDigit (c mod 16)]
                 @ appendString (drop size s)
          else take size s @ appendString (drop size s))"
        unfolding Cons c_def size_def using appendString_high [OF False, of rest]
        by (simp add: Let_def)
      have u1: "jsonChars ([backslash, CHR ''u'', CHR ''f'', CHR ''f'', CHR ''f'', CHR ''d'']
                 @ appendString (drop size s))"
        using chars_unicode [OF isHex_digits(3) isHex_digits(3) isHex_digits(3) isHex_digits(4) d]
        by simp
      have u2: "jsonChars ([backslash, CHR ''u'', CHR ''2'', CHR ''0'', CHR ''2'',
                 hexDigit (c mod 16)] @ appendString (drop size s))"
        using chars_unicode [OF isHex_digits(2) isHex_digits(1) isHex_digits(2) isHex_hexDigit d]
        by simp
      have u3: "jsonChars (take size s @ appendString (drop size s))"
        if "\<not> (c = RuneError \<and> size = 1)"
      proof -
        have sl: "0 < seqLen (take 4 s)"
        proof (rule ccontr)
          assume "\<not> 0 < seqLen (take 4 s)"
          then have "DecodeRuneInString (take 4 s) = (RuneError, 1)"
            using \<open>take 4 s \<noteq> []\<close> by (simp add: DecodeRuneInString_def)
          then show False using that by (simp add: c_def size_def)
        qed
        then have sz: "size = seqLen (take 4 s)"
          using \<open>take 4 s \<noteq> []\<close> by (simp add: size_def DecodeRuneInString_def)
        have "hd (take 4 s) = b"
          using Cons by simp
        then have "list_all (\<lambda>c. 0x80 \<le> byte c) (take size (take 4 s))"
          unfolding sz using seq_bytes_high [OF sl] False by simp
        moreover have "take size (take 4 s) = take size s"
          using seqLen_le4 [of "take 4 s"] sz by (simp add: min_def)
        ultimately have "list_all (\<lambda>c. 0x80 \<le> byte c) (take size s)"
          by simp
        then show ?thesis
          using d by (intro jsonChars_plain_append high_bytes_plain)
      qed
      show ?thesis
        unfolding a using u1 u2 u3 by auto
    qed
  qed
qed

lemma jsonValue_jsonString: "jsonValue (jsonString s)"
  unfolding jsonString_def using jsonChars_appendString [of s] by (rule value_string)

lemma jsonValue_jsonMessage: "jsonValue (jsonMessage m)"
proof -
  define k1 where "k1 = appendString ''content''"
  define k2 where "k2 = appendString ''role''"
  define v1 where "v1 = jsonString (msg_content m)"
  define v2 where "v2 = jsonString (msg_role m)"
  have k: "jsonChars k1" "jsonChars k2"
    by (simp_all add: k1_def k2_def jsonChars_appendString)
  have v: "jsonValue v1" "jsonValue v2"
    by (simp_all add: v1_def v2_def jsonValue_jsonString)
  have "jsonMembers (dquote # k2 @ [dquote] @ '':'' @ v2)"
    using k(2) v(2) by (rule members_one)
  then have "jsonMembers (dquote # k1 @ [dquote] @ '':'' @ v1 @ '','' @ dquote # k2 @ [dquote]
      @ '':'' @ v2)"
    using k(1) v(1) by (intro members_more)
  then have "jsonValue (''{'' @ (dquote # k1 @ [dquote] @ '':'' @ v1 @ '','' @ dquote # k2
      @ [dquote] @ '':'' @ v2) @ ''}'')"
    by (rule value_object)
  then show ?thesis
    by (simp add: jsonMessage_def jsonString_def k1_def k2_def v1_def v2_def)
qed

lemma jsonElements_jsonJoin:
  "msgs \<noteq> [] \<Longrightarrow> jsonElements (jsonJoin (map jsonMessage msgs))"
proof (induction msgs)
  case Nil
  then show ?case by simp
next
  case (Cons m msgs)
  show ?case
  proof (cases msgs)
    case Nil
    then show ?thesis by (simp add: elements_one jsonValue_jsonMessage)
  next
    case (Cons m' rest)
    then have "jsonElements (jsonJoin (map jsonMessage msgs))"
      using Cons.IH by simp
    then have "jsonElements (jsonMessage m @ '','' @ jsonJoin (map jsonMessage msgs))"
      using jsonValue_jsonMessage by (intro elements_more)
    then show ?thesis using Cons by simp
  qed
qed

lemma jsonValue_array:
  "msgs \<noteq> [] \<Longrightarrow> jsonValue (''['' @ jsonJoin (map jsonMessage msgs) @ '']'')"
  by (intro value_array jsonElements_jsonJoin)

lemma not_jsonValue_Nil: "\<not> jsonValue []"
  by (auto elim: jsonValue.cases)

section \<open>JSON serialization: the output is UTF-8\<close>

lemma ValidString_appendI: "ValidString a \<Longrightarrow> ValidString b \<Longrightarrow> ValidString (a @ b)"
  by (simp add: ValidString_append)

lemma ValidString_ASCII_appendI: "isASCII a \<Longrightarrow> ValidString b \<Longrightarrow> ValidString (a @ b)"
  by (simp add: ValidString_appendI ValidString_ASCII)

lemma ValidString_sequence:
  assumes "0 < seqLen x" and "ValidString y"
  shows "ValidString (take (seqLen x) x @ y)"
proof -
  have t: "seqLen (take (seqLen x) x) = seqLen x"
    using assms(1) by (intro seqLen_take_ge) simp_all
  then have "seqLen (take (seqLen x) x @ y) = seqLen x"
    using seqLen_append [of "take (seqLen x) x" y] assms(1) by simp
  moreover have "drop (seqLen x) (take (seqLen x) x @ y) = y"
    using seqLen_le_length [of x] by simp
  ultimately show ?thesis
    using ValidString_step [of "take (seqLen x) x @ y"] assms by simp
qed

lemma isASCII_hexDigit: "byte (hexDigit n) < 0x80"
proof -
  have "list_all (\<lambda>c. byte c < 0x80) ''0123456789abcdef''"
    by (simp add: byte_def)
  moreover have "n mod 16 < length ''0123456789abcdef''"
    by simp
  ultimately show ?thesis
    unfolding hexDigit_def list_all_length by blast
qed

lemma isASCII_escapeASCII: "byte b < 0x80 \<Longrightarrow> isASCII (escapeASCII b)"
  by (simp add: escapeASCII_def isASCII_def isASCII_hexDigit byte_backslash)
    (simp add: byte_def)

lemma ValidString_appendString: "ValidString (appendString s)"
proof (induction "length s" arbitrary: s rule: less_induct)
  case less
  show ?case
  proof (cases s)
    case Nil
    then show ?thesis by (simp add: appendString_Nil ValidString_Nil)
  next
    case (Cons b rest)
    have r: "ValidString (appendString rest)"
      using less [of rest] Cons by simp
    show ?thesis
    proof (cases "byte b < 0x80")
      case True
      have "isASCII [b]"
        using True by (simp add: isASCII_def)
      then have "ValidString ([b] @ appendString rest)"
        using r by (rule ValidString_ASCII_appendI)
      moreover have "ValidString (escapeASCII b @ appendString rest)"
        using isASCII_escapeASCII [OF True] r by (rule ValidString_ASCII_appendI)
      ultimately show ?thesis
        unfolding Cons using True by (simp add: appendString_ASCII)
    next
      case False
      define c where "c = fst (DecodeRuneInString (take 4 s))"
      define size where "size = snd (DecodeRuneInString (take 4 s))"
      have ne: "take 4 s \<noteq> []"
        using Cons by simp
      then have pos: "0 < size"
        unfolding size_def by (rule DecodeRuneInString_width)
      then have d: "ValidString (appendString (drop size s))"
        using less [of "drop size s"] Cons by simp
      have a: "appendString s =
         (if c = RuneError \<and> size = 1
          then [backslash, CHR ''u'', CHR ''f'', CHR ''f'', CHR ''f'', CHR ''d'']
                 @ appendString (drop size s)
          else if c = 0x2028 \<or> c = 0x2029
          then [backslash, CHR ''u'', CHR ''2'', CHR ''0'', CHR ''2'', hexDigit (c mod 16)]
                 @ appendString (drop size s)
          else take size s @ appendString (drop size s))"
        unfolding Cons c_def size_def using appendString_high [OF False, of rest]
        by (simp add: Let_def)
      have "isASCII [backslash, CHR ''u'', CHR ''f'', CHR ''f'', CHR ''f'', CHR ''d'']"
        by (simp add: isASCII_def byte_backslash) (simp add: byte_def)
      then have u1: "ValidString ([backslash, CHR ''u'', CHR ''f'', CHR ''f'', CHR ''f'', CHR ''d'']
                 @ appendString (drop size s))"
        using d by (rule ValidString_ASCII_appendI)
      have "isASCII [backslash, CHR ''u'', CHR ''2'', CHR ''0'', CHR ''2'', hexDigit (c mod 16)]"
        by (simp add: isASCII_def byte_backslash isASCII_hexDigit) (simp add: byte_def)
      then have u2: "ValidString ([backslash, CHR ''u'', CHR ''2'', CHR ''0'', CHR ''2'',
                 hexDigit (c mod 16)] @ appendString (drop size s))"
        using d by (rule ValidString_ASCII_appendI)
      have u3: "ValidString (take size s @ appendString (drop size s))"
        if "\<not> (c = RuneError \<and> size = 1)"
      proof -
        have sl: "0 < seqLen (take 4 s)"
        proof (rule ccontr)
          assume "\<not> 0 < seqLen (take 4 s)"
          then have "DecodeRuneInString (take 4 s) = (RuneError, 1)"
            using ne by (simp add: DecodeRuneInString_def)
          then show False using that by (simp add: c_def size_def)
        qed
        then have sz: "size = seqLen (take 4 s)"
          using ne by (simp add: size_def DecodeRuneInString_def)
        have "take size (take 4 s) = take size s"
          using seqLen_le4 [of "take 4 s"] sz by (simp add: min_def)
        then show ?thesis
          using ValidString_sequence [OF sl d] sz by simp
      qed
      show ?thesis
        unfolding a using u1 u2 u3 by auto
    qed
  qed
qed

lemma ValidString_jsonString: "ValidString (jsonString s)"
proof -
  have q: "isASCII [dquote]"
    by (simp add: isASCII_def byte_dquote)
  have "ValidString (appendString s @ [dquote])"
    using ValidString_appendString ValidString_ASCII [OF q] by (rule ValidString_appendI)
  with q have "ValidString ([dquote] @ appendString s @ [dquote])"
    by (rule ValidString_ASCII_appendI)
  then show ?thesis
    by (simp add: jsonString_def)
qed

lemma isASCII_punctuation:
  "isASCII ''{''" "isASCII '':''" "isASCII '',''" "isASCII ''}''" "isASCII ''[''" "isASCII '']''"
  by (simp_all add: isASCII_def byte_def)

lemma ValidString_jsonMessage: "ValidString (jsonMessage m)"
  unfolding jsonMessage_def
  by (intro ValidString_ASCII_appendI ValidString_appendI ValidString_jsonString
      isASCII_punctuation ValidString_ASCII)

lemma ValidString_jsonJoin: "ValidString (jsonJoin (map jsonMessage msgs))"
proof (induction msgs)
  case Nil
  show ?case by (simp add: ValidString_Nil)
next
  case (Cons m msgs)
  show ?case
  proof (cases msgs)
    case Nil
    then show ?thesis by (simp add: ValidString_jsonMessage)
  next
    case (Cons m' rest)
    have "ValidString (jsonMessage m @ '','' @ jsonJoin (map jsonMessage msgs))"
      by (intro ValidString_appendI ValidString_ASCII_appendI ValidString_jsonMessage
          isASCII_punctuation Cons.IH)
    then show ?thesis using Cons by simp
  qed
qed

lemma ValidString_array: "ValidString (''['' @ jsonJoin (map jsonMessage msgs) @ '']'')"
  by (intro ValidString_ASCII_appendI ValidString_appendI ValidString_jsonJoin
      isASCII_punctuation ValidString_ASCII)

section \<open>The examples of captured text\<close>

lemma isASCII_replicate: "byte a < 0x80 \<Longrightarrow> isASCII (replicate n a)"
  by (simp add: isASCII_def list_all_iff)

lemma ValidString_e_acute: "ValidString ([CHR 0xC3, CHR 0xA9] @ s) = ValidString s"
proof -
  have "seqLen ([CHR 0xC3, CHR 0xA9] @ s) = 2"
    by (simp add: leadLen_def tailOK_def secondOK_def byte_def)
  then show ?thesis
    using ValidString_step [of "[CHR 0xC3, CHR 0xA9] @ s"] by simp
qed

lemma split_text_valid:
  assumes "byte a < 0x80"
  shows "ValidString (replicate n a @ [CHR 0xC3, CHR 0xA9] @ replicate k a)"
proof -
  have v: "ValidString (replicate n a)" "ValidString (replicate k a)"
    using assms by (simp_all add: ValidString_ASCII isASCII_replicate)
  have "ValidString (replicate n a @ [CHR 0xC3, CHR 0xA9] @ replicate k a)
      = ValidString ([CHR 0xC3, CHR 0xA9] @ replicate k a)"
    by (rule ValidString_append [OF v(1)])
  also have "\<dots> = ValidString (replicate k a)"
    by (rule ValidString_e_acute)
  finally show ?thesis
    using v(2) by simp
qed

lemma split_text_cut:
  assumes "byte a < 0x80"
  shows "spec_cut (replicate n a @ [CHR 0xC3, CHR 0xA9] @ replicate k a) (n + 1) = n"
proof -
  define s where "s = replicate n a @ [CHR 0xC3, CHR 0xA9] @ replicate k a"
  have v: "ValidString s"
    unfolding s_def using assms by (rule split_text_valid)
  have l: "length s = n + 2 + k"
    by (simp add: s_def)
  have n0: "s ! n = CHR 0xC3" and n1: "s ! (n + 1) = CHR 0xA9"
    by (simp_all add: s_def nth_append)
  have b: "spec_char_boundary s n"
    using boundary_iff [OF v, of n] l n0 by (simp add: isCont_def byte_def)
  have nb: "\<not> spec_char_boundary s (n + 1)"
    using boundary_iff [OF v, of "n + 1"] l n1 by (simp add: isCont_def byte_def)
  have "spec_cut s (n + 1) = n"
  proof (rule spec_cut_eq [OF b])
    show "n \<le> n + 1" by simp
    show "\<not> spec_char_boundary s k'" if "n < k'" and "k' \<le> n + 1" for k'
    proof -
      have "k' = n + 1" using that by simp
      then show ?thesis using nb by simp
    qed
  qed
  then show ?thesis by (simp add: s_def)
qed

lemma split_text_truncated:
  assumes "byte a < 0x80"
  shows "truncateUTF8Safe (replicate n a @ [CHR 0xC3, CHR 0xA9] @ replicate k a) (n + 1)
           = replicate n a"
proof -
  have "truncateUTF8Safe (replicate n a @ [CHR 0xC3, CHR 0xA9] @ replicate k a) (n + 1)
      = take (spec_cut (replicate n a @ [CHR 0xC3, CHR 0xA9] @ replicate k a) (n + 1))
          (replicate n a @ [CHR 0xC3, CHR 0xA9] @ replicate k a)"
    using split_text_valid [OF assms, of n k] by (intro truncate_of_valid) simp_all
  then show ?thesis
    unfolding split_text_cut [OF assms] by simp
qed

lemma byte_a: "byte (CHR ''a'') < 0x80"
  by (simp add: byte_def)

lemma marker_numbers:
  "MaxPromptLength - length TruncationMarker = 49986"
  "MaxPromptLength div 2 - length TruncationMarker = 24986"
  "length TruncationMarker = 14"
  by (simp_all add: MaxPromptLength_def TruncationMarker_def)

lemma example_long_text_facts:
  "length example_long_text = 50001"
  "ValidString example_long_text"
  "spec_cut example_long_text 49986 = 49985"
  "truncateUTF8Safe example_long_text 49986 = replicate 49985 (CHR ''a'')"
  using split_text_valid [OF byte_a, of 49985 14] split_text_cut [OF byte_a, of 49985 14]
    split_text_truncated [OF byte_a, of 49985 14]
  by (simp_all add: example_long_text_def)

lemma extract_single_part:
  "extractContentText
     (Some \<lparr>Role = r, Parts = [Some \<lparr>Text = t, InlineData = i, FileData = fd\<rparr>]\<rparr>) = t"
  by (simp add: extractContentText_def)

lemma example_Text_long: "example_Text example_long_response = example_long_text"
  by (simp add: example_Text_def example_long_response_def example_long_content_def
      extract_single_part)

lemma example_system_text: "extractContentText (Some example_long_content) = example_long_text"
  by (simp add: example_long_content_def extract_single_part)

lemma uniform_text:
  assumes "byte a < 0x80" and "m < n"
  shows "ValidString (replicate n a)" and "spec_char_boundary (replicate n a) m"
proof -
  show v: "ValidString (replicate n a)"
    using assms(1) by (simp add: ValidString_ASCII isASCII_replicate)
  have "\<not> isCont a"
    using assms(1) by (simp add: isCont_def)
  then show "spec_char_boundary (replicate n a) m"
    using boundary_iff [OF v, of m] assms(2) by simp
qed

lemma uniform_text_truncated:
  assumes "byte a < 0x80" and "m < n"
  shows "truncateUTF8Safe (replicate n a) m = replicate m a"
proof -
  have "truncateUTF8Safe (replicate n a) m = take (spec_cut (replicate n a) m) (replicate n a)"
    using uniform_text(1) [OF assms] assms(2) by (intro truncate_of_valid) simp_all
  then show ?thesis
    using spec_cut_boundary [OF uniform_text(2) [OF assms]] assms(2) by (simp add: min_def)
qed

lemma appendString_safe:
  "list_all (\<lambda>c. htmlSafe (byte c)) xs \<Longrightarrow> appendString (xs @ ys) = xs @ appendString ys"
proof (induction xs)
  case Nil
  show ?case by simp
next
  case (Cons c xs)
  then have "byte c < 0x80" and "htmlSafe (byte c)"
    by (simp_all add: htmlSafe_def)
  then show ?case
    using Cons by (simp add: appendString_ASCII)
qed

lemma appendString_safe_all:
  "list_all (\<lambda>c. htmlSafe (byte c)) xs \<Longrightarrow> appendString xs = xs"
  using appendString_safe [of xs "[]"] by (simp add: appendString_Nil)

lemma example_contents_collected:
  "collectMessages example_contents ([], False) =
     ([\<lparr>msg_role = ''user'',
        msg_content = replicate 24986 (CHR ''a'') @ TruncationMarker\<rparr>], True)"
proof -
  have l: "length example_message_text = 25001"
    by (simp add: example_message_text_def)
  have t: "truncateUTF8Safe example_message_text 24986 = replicate 24986 (CHR ''a'')"
    unfolding example_message_text_def by (rule uniform_text_truncated [OF byte_a]) simp
  show ?thesis
    by (simp add: example_contents_def Let_def extract_single_part l t MaxPromptLength_def
        marker_numbers(3))
qed

lemma jsonString_safe:
  "list_all (\<lambda>c. htmlSafe (byte c)) xs \<Longrightarrow> jsonString xs = dquote # xs @ [dquote]"
  by (simp add: jsonString_def appendString_safe_all)

lemma safe_texts:
  "list_all (\<lambda>c. htmlSafe (byte c)) ''content''"
  "list_all (\<lambda>c. htmlSafe (byte c)) ''role''"
  "list_all (\<lambda>c. htmlSafe (byte c)) ''user''"
  "list_all (\<lambda>c. htmlSafe (byte c)) TruncationMarker"
  "list_all (\<lambda>c. htmlSafe (byte c)) (replicate n (CHR ''a''))"
  by (simp_all add: htmlSafe_def byte_def TruncationMarker_def list_all_iff)

lemma example_contents_json:
  "InputMessages (ExtractPromptsFromRequest example_contents None) =
     ''[{'' @ [dquote] @ ''content'' @ [dquote] @ '':'' @ [dquote]
       @ replicate 24986 (CHR ''a'') @ TruncationMarker @ [dquote] @ '','' @ [dquote] @ ''role''
       @ [dquote] @ '':'' @ [dquote] @ ''user'' @ [dquote] @ ''}]''"
proof -
  define body where "body = replicate 24986 (CHR ''a'') @ TruncationMarker"
  have safe: "list_all (\<lambda>c. htmlSafe (byte c)) body"
    unfolding body_def using safe_texts(4,5) by simp
  have c: "collectMessages example_contents ([], False)
      = ([\<lparr>msg_role = ''user'', msg_content = body\<rparr>], True)"
    by (simp add: example_contents_collected body_def)
  have ne: "0 < length example_contents"
    by (simp add: example_contents_def)
  have "InputMessages (ExtractPromptsFromRequest example_contents None)
      = ''['' @ jsonMessage \<lparr>msg_role = ''user'', msg_content = body\<rparr> @ '']''"
    using ne by (simp add: ExtractPromptsFromRequest_def Let_def c jsonMarshalMessages_def)
  also have "\<dots> = ''[{'' @ [dquote] @ ''content'' @ [dquote] @ '':'' @ [dquote]
       @ body @ [dquote] @ '','' @ [dquote] @ ''role''
       @ [dquote] @ '':'' @ [dquote] @ ''user'' @ [dquote] @ ''}]''"
    by (simp add: jsonMessage_def jsonString_safe [OF safe] jsonString_safe [OF safe_texts(1)]
        jsonString_safe [OF safe_texts(2)] jsonString_safe [OF safe_texts(3)])
  finally show ?thesis
    by (simp add: body_def)
qed

lemma spec_truncated_to_long:
  assumes "spec_truncated_to limit t out" and "limit < length t"
  shows "length out \<le> limit" and "suffix TruncationMarker out" and "ValidString out"
    and "ValidString t \<Longrightarrow>
           out = take (spec_cut t (limit - length TruncationMarker)) t @ TruncationMarker"
    and "ValidString t \<Longrightarrow> spec_char_boundary t (limit - length TruncationMarker)
           \<Longrightarrow> length out = limit"
proof -
  have "\<not> length t \<le> limit"
    using assms(2) by simp
  then have a: "length out \<le> limit
           \<and> suffix TruncationMarker out
           \<and> ValidString out
           \<and> (ValidString t \<longrightarrow>
                out = take (spec_cut t (limit - length TruncationMarker)) t @ TruncationMarker)
           \<and> (ValidString t \<and> spec_char_boundary t (limit - length TruncationMarker) \<longrightarrow>
                length out = limit)"
    using assms(1) unfolding spec_truncated_to_def by (simp only: if_False, blast)
  show "length out \<le> limit" and "suffix TruncationMarker out" and "ValidString out"
    using a by blast+
  show "out = take (spec_cut t (limit - length TruncationMarker)) t @ TruncationMarker"
    if "ValidString t"
    using a that by blast
  show "length out = limit"
    if "ValidString t" and "spec_char_boundary t (limit - length TruncationMarker)"
    using a that by blast
qed

lemma spec_truncated_to_short:
  "spec_truncated_to limit t out \<Longrightarrow> length t \<le> limit \<Longrightarrow> out = t"
  by (simp add: spec_truncated_to_def)

text \<open>
  C4. Every captured text field is truncated with the limit of 50,000: the response
  text (\<^verbatim>\<open>ExtractResponseContent\<close>), the accumulated streaming text
  (\<^verbatim>\<open>ExtractStreamingResponseContent\<close>) and the system prompt
  (\<^verbatim>\<open>ExtractPromptsFromRequest\<close>). A text of at most 50,000 bytes is captured
  unchanged. A longer text gives an output of at most 50,000 bytes that ends with the
  truncation marker and is valid UTF-8; when the text is valid UTF-8 the output is the
  text cut at the last character boundary at or before offset 49,986 (the limit minus
  the marker's length), followed by the marker, so no multi-byte character is split,
  and the output has exactly 50,000 bytes when offset 49,986 is itself a character
  boundary. The truncation flag of a response is the flag passed in or set by the
  truncation; a truncated system prompt sets the flag of the request.
\<close>

theorem captured_text_truncation:
  "spec_truncated_to MaxPromptLength (respText r)
      (OutputResponse (ExtractResponseContent respText (Some r) flag))
   \<and> PromptsTruncated (ExtractResponseContent respText (Some r) flag)
       = (flag \<or> MaxPromptLength < length (respText r))
   \<and> spec_truncated_to MaxPromptLength accumulated
      (OutputResponse (ExtractStreamingResponseContent accumulated flag))
   \<and> PromptsTruncated (ExtractStreamingResponseContent accumulated flag)
       = (flag \<or> MaxPromptLength < length accumulated)
   \<and> (SystemInstruction cfg = Some instruction \<longrightarrow>
        spec_truncated_to MaxPromptLength (extractContentText (Some instruction))
          (SystemPrompt (ExtractPromptsFromRequest contents (Some cfg)))
        \<and> (MaxPromptLength < length (extractContentText (Some instruction))
             \<longrightarrow> PromptsTruncated (ExtractPromptsFromRequest contents (Some cfg))))"
proof -
  have a: "spec_truncated_to MaxPromptLength (respText r)
      (OutputResponse (ExtractResponseContent respText (Some r) flag))"
    unfolding ExtractResponseContent_output by (rule truncation_spec [OF marker_fits(1)])
  have b: "spec_truncated_to MaxPromptLength accumulated
      (OutputResponse (ExtractStreamingResponseContent accumulated flag))"
    unfolding ExtractStreamingResponseContent_output by (rule truncation_spec [OF marker_fits(1)])
  have c: "spec_truncated_to MaxPromptLength (extractContentText (Some instruction))
          (SystemPrompt (ExtractPromptsFromRequest contents (Some cfg)))"
    if "SystemInstruction cfg = Some instruction"
    unfolding ExtractPrompts_system [OF that] by (rule truncation_spec [OF marker_fits(1)])
  show ?thesis
    using a b c ExtractResponseContent_flag [of respText r flag]
      ExtractStreamingResponseContent_flag [of accumulated flag]
      ExtractPrompts_system_flag [of cfg instruction contents]
    by blast
qed

theorem captured_text_truncation_witness:
  "MaxPromptLength < length (example_Text example_long_response)
   \<and> ValidString (example_Text example_long_response)
   \<and> length (OutputResponse (ExtractResponseContent example_Text (Some example_long_response)
        False)) \<le> MaxPromptLength
   \<and> suffix TruncationMarker
        (OutputResponse (ExtractResponseContent example_Text (Some example_long_response) False))
   \<and> ValidString
        (OutputResponse (ExtractResponseContent example_Text (Some example_long_response) False))
   \<and> OutputResponse (ExtractResponseContent example_Text (Some example_long_response) False)
       = take (spec_cut (example_Text example_long_response)
                 (MaxPromptLength - length TruncationMarker))
           (example_Text example_long_response) @ TruncationMarker
   \<and> PromptsTruncated (ExtractResponseContent example_Text (Some example_long_response) False)
   \<and> ValidString (replicate 50001 (CHR ''a''))
   \<and> spec_char_boundary (replicate 50001 (CHR ''a'')) (MaxPromptLength - length TruncationMarker)
   \<and> length (OutputResponse (ExtractStreamingResponseContent (replicate 50001 (CHR ''a''))
        False)) = MaxPromptLength
   \<and> OutputResponse (ExtractStreamingResponseContent ''hello'' False) = ''hello''
   \<and> \<not> PromptsTruncated (ExtractStreamingResponseContent ''hello'' False)
   \<and> SystemInstruction example_long_config = Some example_long_content
   \<and> MaxPromptLength < length (extractContentText (Some example_long_content))
   \<and> suffix TruncationMarker
        (SystemPrompt (ExtractPromptsFromRequest [] (Some example_long_config)))
   \<and> PromptsTruncated (ExtractPromptsFromRequest [] (Some example_long_config))"
proof -
  have l: "MaxPromptLength < length (example_Text example_long_response)"
    and v: "ValidString (example_Text example_long_response)"
    by (simp_all add: example_Text_long example_long_text_facts MaxPromptLength_def)
  have u1: "ValidString (replicate 50001 (CHR ''a''))"
    by (rule uniform_text(1) [OF byte_a, of 0]) simp
  have "spec_char_boundary (replicate 50001 (CHR ''a'')) 49986"
    by (rule uniform_text(2) [OF byte_a]) simp
  then have u2: "spec_char_boundary (replicate 50001 (CHR ''a''))
      (MaxPromptLength - length TruncationMarker)"
    by (simp only: marker_numbers(1))
  note u = u1 u2
  have ul: "MaxPromptLength < length (replicate 50001 (CHR ''a''))"
    by (simp add: MaxPromptLength_def)
  have h: "length ''hello'' \<le> MaxPromptLength"
    by (simp add: MaxPromptLength_def)
  have s: "SystemInstruction example_long_config = Some example_long_content"
    by (simp add: example_long_config_def)
  have sl: "MaxPromptLength < length (extractContentText (Some example_long_content))"
    by (simp add: example_system_text example_long_text_facts MaxPromptLength_def)
  note T = captured_text_truncation
  have r1: "spec_truncated_to MaxPromptLength (example_Text example_long_response)
      (OutputResponse (ExtractResponseContent example_Text (Some example_long_response) False))"
    and r2: "PromptsTruncated (ExtractResponseContent example_Text (Some example_long_response)
      False)"
    using T [of example_Text example_long_response False] l by simp_all
  have r3: "spec_truncated_to MaxPromptLength (replicate 50001 (CHR ''a''))
      (OutputResponse (ExtractStreamingResponseContent (replicate 50001 (CHR ''a'')) False))"
    using T [of _ _ _ "replicate 50001 (CHR ''a'')"] by blast
  have r4: "spec_truncated_to MaxPromptLength ''hello''
      (OutputResponse (ExtractStreamingResponseContent ''hello'' False))"
    and r5: "\<not> PromptsTruncated (ExtractStreamingResponseContent ''hello'' False)"
    using T [of _ _ False "''hello''"] h by simp_all
  have r6: "spec_truncated_to MaxPromptLength (extractContentText (Some example_long_content))
      (SystemPrompt (ExtractPromptsFromRequest [] (Some example_long_config)))"
    and r7: "PromptsTruncated (ExtractPromptsFromRequest [] (Some example_long_config))"
    using T [of _ _ _ _ example_long_config example_long_content "[]"] s sl by blast+
  note c1 = spec_truncated_to_long(1,2,3) [OF r1 l] spec_truncated_to_long(4) [OF r1 l v]
  note c3 = spec_truncated_to_long(5) [OF r3 ul u]
  note c4 = spec_truncated_to_short [OF r4 h]
  note c6 = spec_truncated_to_long(2) [OF r6 sl]
  show ?thesis
    using l v c1 r2 u c3 c4 r5 s sl c6 r7 by blast
qed

theorem captured_text_length_counterexample:
  "length (example_Text example_long_response) = 50001
   \<and> ValidString (example_Text example_long_response)
   \<and> OutputResponse (ExtractResponseContent example_Text (Some example_long_response) False)
       = replicate 49985 (CHR ''a'') @ TruncationMarker
   \<and> length (OutputResponse (ExtractResponseContent example_Text (Some example_long_response)
        False)) = 49999
   \<and> length (runes (OutputResponse (ExtractResponseContent example_Text
        (Some example_long_response) False))) = 49999"
proof -
  have o: "OutputResponse (ExtractResponseContent example_Text (Some example_long_response) False)
       = replicate 49985 (CHR ''a'') @ TruncationMarker"
    unfolding ExtractResponseContent_output example_Text_long
    by (simp add: example_long_text_facts marker_numbers MaxPromptLength_def)
  have "isASCII (replicate 49985 (CHR ''a'') @ TruncationMarker)"
    using isASCII_replicate [OF byte_a, of 49985] TruncationMarker_ASCII
    by (simp add: isASCII_def)
  then have "length (runes (replicate 49985 (CHR ''a'') @ TruncationMarker)) = 49999"
    by (simp add: runes_ASCII marker_numbers)
  then show ?thesis
    unfolding o by (simp add: example_Text_long example_long_text_facts marker_numbers)
qed

text \<open>
  C5. The input messages of a request are captured one by one, in order, from the
  contents that are present: each message has the content's role (\<^verbatim>\<open>user\<close> when
  empty) and the content's text truncated with half the limit, 25,000 bytes, so a text
  of more than 25,000 bytes becomes at most 25,000 bytes ending with the marker.
  \<^verbatim>\<open>InputMessages\<close> is the empty string when no content is present, and otherwise
  exactly what \<^verbatim>\<open>json.Marshal\<close> returns for the list of these messages, whatever its
  length: the serialization is not truncated again. Whenever a content is present
  \<^verbatim>\<open>InputMessages\<close> is valid JSON (a JSON array by the grammar of RFC 8259, in valid
  UTF-8), and a message longer than half the limit sets the truncation flag.
\<close>

theorem input_messages_serialization:
  "\<exists>msgs. list_all2 spec_captured_message (spec_present contents) msgs
     \<and> (msgs = [] \<longrightarrow> InputMessages (ExtractPromptsFromRequest contents config) = [])
     \<and> (msgs \<noteq> [] \<longrightarrow>
          jsonMarshalMessages msgs = Inr (InputMessages (ExtractPromptsFromRequest contents config)))
     \<and> (spec_present contents \<noteq> []
          \<longrightarrow> jsonValue (InputMessages (ExtractPromptsFromRequest contents config))
              \<and> ValidString (InputMessages (ExtractPromptsFromRequest contents config)))
     \<and> (list_ex spec_long_message (spec_present contents)
          \<longrightarrow> PromptsTruncated (ExtractPromptsFromRequest contents config))"
proof -
  obtain msgs where a: "list_all2 spec_captured_message (spec_present contents) msgs"
    and m: "jsonMarshalMessages msgs
         = Inr (if msgs = [] then ''null'' else ''['' @ jsonJoin (map jsonMessage msgs) @ '']'')"
    and i: "InputMessages (ExtractPromptsFromRequest contents config)
         = (if msgs = [] then [] else ''['' @ jsonJoin (map jsonMessage msgs) @ '']'')"
    and p: "list_ex spec_long_message (spec_present contents)
          \<longrightarrow> PromptsTruncated (ExtractPromptsFromRequest contents config)"
    using ExtractPrompts_messages [of contents config] by blast
  have e: "msgs = [] \<longrightarrow> InputMessages (ExtractPromptsFromRequest contents config) = []"
    using i by simp
  have s: "msgs \<noteq> [] \<longrightarrow>
      jsonMarshalMessages msgs = Inr (InputMessages (ExtractPromptsFromRequest contents config))"
    using i m by simp
  have "msgs \<noteq> []" if "spec_present contents \<noteq> []"
    using a that by auto
  then have v: "spec_present contents \<noteq> []
      \<longrightarrow> jsonValue (InputMessages (ExtractPromptsFromRequest contents config))
          \<and> ValidString (InputMessages (ExtractPromptsFromRequest contents config))"
    using i jsonValue_array [of msgs] ValidString_array [of msgs] by simp
  show ?thesis
    using a e s v p by blast
qed

theorem input_messages_serialization_witness:
  "spec_present example_contents \<noteq> []
   \<and> list_ex spec_long_message (spec_present example_contents)
   \<and> jsonValue (InputMessages (ExtractPromptsFromRequest example_contents None))
   \<and> ValidString (InputMessages (ExtractPromptsFromRequest example_contents None))
   \<and> PromptsTruncated (ExtractPromptsFromRequest example_contents None)
   \<and> InputMessages (ExtractPromptsFromRequest example_contents None) =
       ''[{'' @ [dquote] @ ''content'' @ [dquote] @ '':'' @ [dquote]
         @ replicate 24986 (CHR ''a'') @ TruncationMarker @ [dquote] @ '','' @ [dquote]
         @ ''role'' @ [dquote] @ '':'' @ [dquote] @ ''user'' @ [dquote] @ ''}]''
   \<and> spec_present ([] :: Content option list) = []
   \<and> InputMessages (ExtractPromptsFromRequest [] None) = []"
proof -
  have h1: "spec_present example_contents \<noteq> []"
    by (simp add: example_contents_def)
  have "length example_message_text = 25001"
    by (simp add: example_message_text_def)
  then have h2: "list_ex spec_long_message (spec_present example_contents)"
    by (simp add: example_contents_def spec_long_message_def extract_single_part
        MaxPromptLength_def)
  have c: "jsonValue (InputMessages (ExtractPromptsFromRequest example_contents None))
      \<and> ValidString (InputMessages (ExtractPromptsFromRequest example_contents None))
      \<and> PromptsTruncated (ExtractPromptsFromRequest example_contents None)"
    using input_messages_serialization [of example_contents None] h1 h2 by blast
  have "InputMessages (ExtractPromptsFromRequest [] None) = []"
    using input_messages_serialization [of "[]" None] by auto
  then show ?thesis
    using h1 h2 c example_contents_json by simp
qed

theorem input_messages_empty_counterexample:
  "InputMessages (ExtractPromptsFromRequest [] None) = []
   \<and> \<not> jsonValue (InputMessages (ExtractPromptsFromRequest [] None))
   \<and> InputMessages (ExtractPromptsFromRequest [None] None) = []
   \<and> \<not> jsonValue (InputMessages (ExtractPromptsFromRequest [None] None))"
proof -
  have "InputMessages (ExtractPromptsFromRequest [] None) = []"
    "InputMessages (ExtractPromptsFromRequest [None] None) = []"
    by (simp_all add: ExtractPromptsFromRequest_def Let_def)
  then show ?thesis
    by (simp add: not_jsonValue_Nil)
qed

end
